theory Spec2Isabelle
  imports Complex_Main "HOL-Library.Sublist"
begin

section \<open>Python values\<close>

text \<open>
  The model covers \<^verbatim>\<open>analytics.py\<close>. Python \<^verbatim>\<open>str\<close> values are modelled as
  \<^typ>\<open>string\<close> holding ASCII text, Python \<^verbatim>\<open>int\<close> as \<^typ>\<open>int\<close>, and Python
  \<^verbatim>\<open>float\<close> as \<^typ>\<open>real\<close>: sums, quotients and comparisons are exact, so NaN,
  the infinities and the rounding error of binary floating point are outside the model.
  The last section repeats the loop of \<^verbatim>\<open>compute_insights\<close> over an arbitrary
  floating-point arithmetic, for the statements about its totals.
  Every exception the code can raise is a value \<open>Inl e\<close> of a sum type.
\<close>

datatype error = ValueError | TypeError | OverflowError

subsection \<open>Strings\<close>

definition is_space :: "char \<Rightarrow> bool" where
  \<comment> \<open>the ASCII characters for which \<^verbatim>\<open>str.isspace\<close> holds\<close>
  "is_space c = (c \<in> set [CHR '' '', CHR 0x09, CHR 0x0A, CHR 0x0B, CHR 0x0C, CHR 0x0D,
                            CHR 0x1C, CHR 0x1D, CHR 0x1E, CHR 0x1F])"

definition py_strip :: "string \<Rightarrow> string" where
  "py_strip s = rev (dropWhile is_space (rev (dropWhile is_space s)))"

definition lower_char :: "char \<Rightarrow> char" where
  "lower_char c = (let n = (of_char c :: nat) in
                   if 65 \<le> n \<and> n \<le> 90 then char_of (n + 32) else c)"

definition py_lower :: "string \<Rightarrow> string" where
  "py_lower s = map lower_char s"

definition contains :: "string \<Rightarrow> string \<Rightarrow> bool" where
  \<comment> \<open>\<^verbatim>\<open>k in s\<close> on strings\<close>
  "contains k s = sublist k s"

fun split_dash :: "string \<Rightarrow> string list" where
  \<comment> \<open>\<^verbatim>\<open>s.split("-")\<close>\<close>
  "split_dash [] = [[]]"
| "split_dash (c # cs) =
     (if c = CHR ''-'' then [] # split_dash cs
      else (case split_dash cs of [] \<Rightarrow> [[c]] | p # ps \<Rightarrow> (c # p) # ps))"

subsection \<open>Integers and their decimal text\<close>

definition is_digit :: "char \<Rightarrow> bool" where
  "is_digit c = (48 \<le> (of_char c :: nat) \<and> (of_char c :: nat) \<le> 57)"

definition digit_val :: "char \<Rightarrow> nat" where
  "digit_val c = (of_char c :: nat) - 48"

definition digit_char :: "nat \<Rightarrow> char" where
  "digit_char n = char_of (48 + n)"

fun digits_ok :: "string \<Rightarrow> bool" where
  \<comment> \<open>decimal digits, single underscores allowed between two digits\<close>
  "digits_ok [] = False"
| "digits_ok [c] = is_digit c"
| "digits_ok (c # d # cs) =
     (is_digit c \<and> (if d = CHR ''_'' then digits_ok cs else digits_ok (d # cs)))"

definition digits_value :: "string \<Rightarrow> nat" where
  "digits_value s = foldl (\<lambda>acc c. if c = CHR ''_'' then acc else 10 * acc + digit_val c) 0 s"

definition py_int :: "string \<Rightarrow> error + int" where
  \<comment> \<open>\<^verbatim>\<open>int(s)\<close> in base 10 (the optional limit on the number of digits is not modelled)\<close>
  "py_int s =
     (let t = py_strip s;
          (neg, body) = (case t of [] \<Rightarrow> (False, [])
                         | c # cs \<Rightarrow> if c = CHR ''-'' then (True, cs)
                                    else if c = CHR ''+'' then (False, cs) else (False, t))
      in if digits_ok body
         then Inr (if neg then - int (digits_value body) else int (digits_value body))
         else Inl ValueError)"

function nat_digits :: "nat \<Rightarrow> string" where
  "nat_digits n = (if n < 10 then [digit_char n]
                   else nat_digits (n div 10) @ [digit_char (n mod 10)])"
  by pat_completeness auto
termination
  by (relation "measure id") auto

declare nat_digits.simps [simp del]

definition py_str_int :: "int \<Rightarrow> string" where
  \<comment> \<open>\<^verbatim>\<open>str(n)\<close>, also what \<^verbatim>\<open>f"{n}"\<close> prints\<close>
  "py_str_int n = (if n < 0 then CHR ''-'' # nat_digits (nat (- n)) else nat_digits (nat n))"

definition fmt_02d :: "int \<Rightarrow> string" where
  \<comment> \<open>\<^verbatim>\<open>f"{n:02d}"\<close>: zero-padded to width 2, the sign counting as one column\<close>
  "fmt_02d n = (if 0 \<le> n \<and> n < 10 then CHR ''0'' # py_str_int n else py_str_int n)"

section \<open>Dates\<close>

text \<open>
  \<^verbatim>\<open>datetime.date\<close> and \<^verbatim>\<open>datetime.datetime\<close>: the constructors raise
  \<^verbatim>\<open>ValueError\<close> outside years 1 to 9999, months 1 to 12 and the days of the month.
  Comparison is lexicographic on (year, month, day); the difference of two dates counts
  the days between their proleptic Gregorian ordinals.
\<close>

record date =
  year :: int
  month :: int
  day :: int

definition is_leap :: "int \<Rightarrow> bool" where
  "is_leap y = (y mod 4 = 0 \<and> (y mod 100 \<noteq> 0 \<or> y mod 400 = 0))"

definition days_in_month :: "int \<Rightarrow> int \<Rightarrow> int" where
  "days_in_month y m =
     (if m = 2 then (if is_leap y then 29 else 28)
      else if m = 4 \<or> m = 6 \<or> m = 9 \<or> m = 11 then 30 else 31)"

definition days_before_year :: "int \<Rightarrow> int" where
  "days_before_year y = (y - 1) * 365 + (y - 1) div 4 - (y - 1) div 100 + (y - 1) div 400"

definition days_before_month :: "int \<Rightarrow> int \<Rightarrow> int" where
  "days_before_month y m =
     [0, 31, 59, 90, 120, 151, 181, 212, 243, 273, 304, 334] ! nat (m - 1)
       + (if m > 2 \<and> is_leap y then 1 else 0)"

definition toordinal :: "date \<Rightarrow> int" where
  "toordinal d = days_before_year (year d) + days_before_month (year d) (month d) + day d"

definition valid_date :: "date \<Rightarrow> bool" where
  "valid_date d = (1 \<le> year d \<and> year d \<le> 9999 \<and> 1 \<le> month d \<and> month d \<le> 12
                   \<and> 1 \<le> day d \<and> day d \<le> days_in_month (year d) (month d))"

definition mk_date :: "int \<Rightarrow> int \<Rightarrow> int \<Rightarrow> error + date" where
  \<comment> \<open>\<^verbatim>\<open>date(y, m, d)\<close>\<close>
  "mk_date y m d =
     (let r = \<lparr>year = y, month = m, day = d\<rparr> in if valid_date r then Inr r else Inl ValueError)"

definition date_less :: "date \<Rightarrow> date \<Rightarrow> bool" where
  "date_less a b = (year a < year b \<or> (year a = year b \<and>
                     (month a < month b \<or> (month a = month b \<and> day a < day b))))"

definition date_le :: "date \<Rightarrow> date \<Rightarrow> bool" where
  "date_le a b = (date_less a b \<or> a = b)"

definition date_max :: "date \<Rightarrow> date \<Rightarrow> date" where
  \<comment> \<open>\<^verbatim>\<open>max(a, b)\<close> keeps the first of two equal arguments\<close>
  "date_max a b = (if date_less a b then b else a)"

definition date_min :: "date \<Rightarrow> date \<Rightarrow> date" where
  "date_min a b = (if date_less b a then b else a)"

definition date_diff_days :: "date \<Rightarrow> date \<Rightarrow> int" where
  \<comment> \<open>\<^verbatim>\<open>(a - b).days\<close>\<close>
  "date_diff_days a b = toordinal a - toordinal b"

datatype tzinfo = UTC

record datetime =
  dt_date :: date
  dt_hour :: int
  dt_minute :: int
  dt_second :: int
  dt_tzinfo :: tzinfo

definition mk_datetime :: "int \<Rightarrow> int \<Rightarrow> int \<Rightarrow> int \<Rightarrow> int \<Rightarrow> int \<Rightarrow> tzinfo \<Rightarrow> error + datetime" where
  \<comment> \<open>\<^verbatim>\<open>datetime(y, m, d, hh, mm, ss, tzinfo=tz)\<close>\<close>
  "mk_datetime y m d hh mi ss tz =
     (case mk_date y m d of
        Inl e \<Rightarrow> Inl e
      | Inr r \<Rightarrow>
          if 0 \<le> hh \<and> hh \<le> 23 \<and> 0 \<le> mi \<and> mi \<le> 59 \<and> 0 \<le> ss \<and> ss \<le> 59
          then Inr \<lparr>dt_date = r, dt_hour = hh, dt_minute = mi, dt_second = ss, dt_tzinfo = tz\<rparr>
          else Inl ValueError)"

record timedelta =
  td_days :: int
  td_seconds :: int

definition datetime_sub :: "datetime \<Rightarrow> datetime \<Rightarrow> timedelta" where
  \<comment> \<open>\<^verbatim>\<open>a - b\<close> for two datetimes in the same zone, normalised as \<^verbatim>\<open>timedelta\<close> does\<close>
  "datetime_sub a b =
     (let sa = dt_second a + 60 * dt_minute a + 3600 * dt_hour a;
          sb = dt_second b + 60 * dt_minute b + 3600 * dt_hour b;
          total = (toordinal (dt_date a) - toordinal (dt_date b)) * 86400 + (sa - sb)
      in \<lparr>td_days = total div 86400, td_seconds = total mod 86400\<rparr>)"

subsection \<open>Period helpers\<close>

definition parse_yyyy_mm :: "string \<Rightarrow> error + (int \<times> int)" where
  "parse_yyyy_mm s =
     (case split_dash (py_strip s) of
        [y, m] \<Rightarrow>
          (case py_int y of
             Inl e \<Rightarrow> Inl e
           | Inr yr \<Rightarrow>
               (case py_int m of
                  Inl e \<Rightarrow> Inl e
                | Inr mon \<Rightarrow> if mon < 1 \<or> mon > 12 then Inl ValueError else Inr (yr, mon)))
      | _ \<Rightarrow> Inl ValueError)"

definition month_bounds_utc :: "string \<Rightarrow> error + (datetime \<times> datetime)" where
  "month_bounds_utc mstr =
     (case parse_yyyy_mm mstr of
        Inl e \<Rightarrow> Inl e
      | Inr (y, m) \<Rightarrow>
          (case mk_datetime y m 1 0 0 0 UTC of
             Inl e \<Rightarrow> Inl e
           | Inr start \<Rightarrow>
               (case (if m = 12 then mk_datetime (y + 1) 1 1 0 0 0 UTC
                      else mk_datetime y (m + 1) 1 0 0 0 UTC) of
                  Inl e \<Rightarrow> Inl e
                | Inr end \<Rightarrow> Inr (start, end))))"

definition prev_month_str :: "string \<Rightarrow> error + string" where
  "prev_month_str mstr =
     (case parse_yyyy_mm mstr of
        Inl e \<Rightarrow> Inl e
      | Inr (y, m) \<Rightarrow>
          if m = 1 then Inr (py_str_int (y - 1) @ ''-12'')
          else Inr (py_str_int y @ ''-'' @ fmt_02d (m - 1)))"

definition month_str :: "date \<Rightarrow> string" where
  "month_str d = py_str_int (year d) @ ''-'' @ fmt_02d (month d)"

section \<open>Decimal text round trip\<close>

lemma is_digit_not_special:
  assumes "is_digit c"
  shows "\<not> is_space c" "c \<noteq> CHR ''-''" "c \<noteq> CHR ''_''" "c \<noteq> CHR ''+''"
  using assms by (auto simp: is_digit_def is_space_def)

lemma digit_char_is_digit: "k < 10 \<Longrightarrow> is_digit (digit_char k)"
  by (simp add: is_digit_def digit_char_def)

lemma digit_val_digit_char: "k < 10 \<Longrightarrow> digit_val (digit_char k) = k"
  by (simp add: digit_val_def digit_char_def)

lemma nat_digits_all_digits: "list_all is_digit (nat_digits n)"
proof (induction n rule: nat_digits.induct)
  case (1 n)
  show ?case
  proof (cases "n < 10")
    case True
    then show ?thesis by (subst nat_digits.simps) (simp add: digit_char_is_digit)
  next
    case False
    with 1 show ?thesis by (subst nat_digits.simps) (simp add: digit_char_is_digit)
  qed
qed

lemma nat_digits_nonempty: "nat_digits n \<noteq> []"
  by (subst nat_digits.simps) simp



lemma digits_ok_all_digits: "s \<noteq> [] \<Longrightarrow> list_all is_digit s \<Longrightarrow> digits_ok s"
  by (induction s rule: digits_ok.induct) (auto simp: is_digit_not_special)

lemma digits_value_snoc:
  "is_digit c \<Longrightarrow> digits_value (s @ [c]) = 10 * digits_value s + digit_val c"
  by (simp add: digits_value_def is_digit_not_special)

lemma digits_value_nat_digits: "digits_value (nat_digits n) = n"
proof (induction n rule: nat_digits.induct)
  case (1 n)
  show ?case
  proof (cases "n < 10")
    case True
    then show ?thesis
      by (subst nat_digits.simps) (simp add: digits_value_def digit_val_digit_char is_digit_not_special digit_char_is_digit)
  next
    case False
    with 1 show ?thesis
      by (subst nat_digits.simps) (simp add: digits_value_snoc digit_char_is_digit digit_val_digit_char)
  qed
qed

lemma py_strip_no_space: "\<forall>c\<in>set s. \<not> is_space c \<Longrightarrow> py_strip s = s"
proof -
  assume a: "\<forall>c\<in>set s. \<not> is_space c"
  have d: "dropWhile is_space t = t" if "\<forall>c\<in>set t. \<not> is_space c" for t
    using that by (cases t) auto
  show ?thesis using a by (simp add: py_strip_def d)
qed

lemma split_dash_no_dash: "CHR ''-'' \<notin> set b \<Longrightarrow> split_dash b = [b]"
  by (induction b) auto

lemma split_dash_one_dash:
  "CHR ''-'' \<notin> set a \<Longrightarrow> CHR ''-'' \<notin> set b \<Longrightarrow> split_dash (a @ CHR ''-'' # b) = [a, b]"
  by (induction a) (auto simp: split_dash_no_dash)

lemma py_int_all_digits:
  assumes "s \<noteq> []" "list_all is_digit s"
  shows "py_int s = Inr (int (digits_value s))"
proof -
  have ns: "\<forall>c\<in>set s. \<not> is_space c"
    using assms(2) by (auto simp: list_all_iff is_digit_not_special)
  obtain c cs where cc: "s = c # cs" using assms(1) by (cases s) auto
  have dc: "is_digit c" using assms(2) cc by simp
  have ok: "digits_ok s" using assms by (rule digits_ok_all_digits)
  have "py_int s = (if digits_ok s then Inr (int (digits_value s)) else Inl ValueError)"
    unfolding py_int_def py_strip_no_space[OF ns]
    using dc by (simp add: cc is_digit_not_special del: digits_ok.simps)
  then show ?thesis using ok by simp
qed

lemma py_int_nat_digits: "py_int (nat_digits n) = Inr (int n)"
  using py_int_all_digits[OF nat_digits_nonempty nat_digits_all_digits, of n]
  by (simp add: digits_value_nat_digits)

section \<open>Period strings\<close>

lemma split_dash_parts_no_dash: "p \<in> set (split_dash s) \<Longrightarrow> CHR ''-'' \<notin> set p"
proof (induction s arbitrary: p)
  case Nil
  then show ?case by simp
next
  case (Cons c cs)
  then show ?case by (cases "split_dash cs") (auto split: if_splits)
qed

lemma set_py_strip: "set (py_strip s) \<subseteq> set s"
proof -
  have "set (dropWhile is_space t) \<subseteq> set t" for t
    by (auto dest: set_dropWhileD)
  then show ?thesis unfolding py_strip_def
    by (metis (no_types, lifting) set_rev subset_trans)
qed

lemma py_int_no_dash_nonneg:
  assumes "CHR ''-'' \<notin> set s" "py_int s = Inr v"
  shows "0 \<le> v"
proof -
  have "CHR ''-'' \<notin> set (py_strip s)" using assms(1) set_py_strip by blast
  then show ?thesis using assms(2)
    by (cases "py_strip s") (auto simp: py_int_def Let_def split: if_splits)
qed

lemma parse_yyyy_mm_range:
  assumes "parse_yyyy_mm s = Inr (y, m)"
  shows "0 \<le> y \<and> 1 \<le> m \<and> m \<le> 12"
proof -
  from assms obtain a b where ab: "split_dash (py_strip s) = [a, b]"
    and ya: "py_int a = Inr y" and mb: "py_int b = Inr m"
    by (auto simp: parse_yyyy_mm_def split: list.splits sum.splits if_splits)
  have "CHR ''-'' \<notin> set a" using split_dash_parts_no_dash[of a "py_strip s"] ab by simp
  then have "0 \<le> y" using ya py_int_no_dash_nonneg by blast
  moreover have "1 \<le> m \<and> m \<le> 12" using assms ab ya mb
    by (auto simp: parse_yyyy_mm_def split: if_splits)
  ultimately show ?thesis by simp
qed

lemma py_str_int_nonneg: "0 \<le> n \<Longrightarrow> py_str_int n = nat_digits (nat n)"
  by (simp add: py_str_int_def)

lemma fmt_02d_digits:
  assumes "0 \<le> n"
  shows "fmt_02d n \<noteq> [] \<and> list_all is_digit (fmt_02d n) \<and> digits_value (fmt_02d n) = nat n"
proof -
  have z: "is_digit (CHR ''0'')" by (simp add: is_digit_def)
  have v: "digits_value (CHR ''0'' # t) = digits_value t" for t
    by (simp add: digits_value_def digit_val_def)
  show ?thesis using assms z
    by (simp add: fmt_02d_def py_str_int_nonneg nat_digits_nonempty nat_digits_all_digits
        digits_value_nat_digits v)
qed

lemma parse_month_text:
  assumes "0 \<le> y" "1 \<le> m" "m \<le> 12"
  shows "parse_yyyy_mm (py_str_int y @ ''-'' @ fmt_02d m) = Inr (y, m)"
proof -
  let ?a = "py_str_int y" and ?b = "fmt_02d m"
  have da: "list_all is_digit ?a" "?a \<noteq> []"
    using assms(1) by (simp_all add: py_str_int_nonneg nat_digits_all_digits nat_digits_nonempty)
  have db: "list_all is_digit ?b" "?b \<noteq> []" "digits_value ?b = nat m"
    using fmt_02d_digits[of m] assms(2) by simp_all
  have dsp: "\<not> is_space (CHR ''-'')" by (simp add: is_space_def)
  have nsp: "\<forall>c\<in>set (?a @ ''-'' @ ?b). \<not> is_space c"
    using da(1) db(1) dsp by (auto simp: list_all_iff is_digit_not_special)
  have ndd: "\<not> is_digit (CHR ''-'')" by (simp add: is_digit_def)
  have nd: "CHR ''-'' \<notin> set ?a" "CHR ''-'' \<notin> set ?b"
    using da(1) db(1) ndd by (auto simp: list_all_iff)
  have sp: "split_dash (py_strip (?a @ ''-'' @ ?b)) = [?a, ?b]"
    using split_dash_one_dash[OF nd] py_strip_no_space[OF nsp] by simp
  have ia: "py_int ?a = Inr y"
    using assms(1) py_int_nat_digits[of "nat y"] by (simp add: py_str_int_nonneg)
  have ib: "py_int ?b = Inr m"
    using py_int_all_digits[OF db(2) db(1)] db(3) assms(2) by simp
  show ?thesis unfolding parse_yyyy_mm_def sp using assms(2,3) by (simp add: ia ib)
qed

lemma fmt_02d_12: "fmt_02d 12 = ''12''"
  by code_simp

text \<open>
  C2 (as amended). For every period string that \<open>parse_yyyy_mm\<close> accepts, other than
  January of year 0, \<open>prev_month_str\<close> returns a period string that parses to the
  month one earlier: January becomes December of the previous year, every other month
  (December included) becomes the month before it in the same year.
\<close>

theorem prev_month_str_decrements:
  assumes "parse_yyyy_mm s = Inr (y, m)" and "(y, m) \<noteq> (0, 1)"
  shows "\<exists>t. prev_month_str s = Inr t
           \<and> t = (if m = 1 then py_str_int (y - 1) @ ''-12'' else py_str_int y @ ''-'' @ fmt_02d (m - 1))
           \<and> parse_yyyy_mm t = Inr (if m = 1 then (y - 1, 12) else (y, m - 1))"
proof -
  have r: "0 \<le> y" "1 \<le> m" "m \<le> 12" using parse_yyyy_mm_range[OF assms(1)] by simp_all
  show ?thesis
  proof (cases "m = 1")
    case True
    then have "1 \<le> y" using r assms(2) by auto
    then have "parse_yyyy_mm (py_str_int (y - 1) @ ''-'' @ fmt_02d 12) = Inr (y - 1, 12)"
      by (intro parse_month_text) simp_all
    then show ?thesis using True assms(1) by (simp add: prev_month_str_def fmt_02d_12)
  next
    case False
    then have "parse_yyyy_mm (py_str_int y @ ''-'' @ fmt_02d (m - 1)) = Inr (y, m - 1)"
      using r by (intro parse_month_text) simp_all
    then show ?thesis using False assms(1) by (simp add: prev_month_str_def)
  qed
qed

theorem prev_month_str_decrements_witness:
  "prev_month_str ''2024-01'' = Inr ''2023-12'' \<and> parse_yyyy_mm ''2023-12'' = Inr (2023, 12)"
proof -
  have p: "parse_yyyy_mm ''2024-01'' = Inr (2024, 1)" by code_simp
  have t: "py_str_int (2024 - 1) @ ''-12'' = ''2023-12''" by code_simp
  from prev_month_str_decrements[OF p] t show ?thesis by simp
qed

text \<open>
  C2 as stated fails for a December input: the result is November of the same year,
  not January of the previous year.
\<close>

theorem prev_month_str_december_counterexample:
  "prev_month_str ''2024-12'' = Inr ''2024-11'' \<and> prev_month_str ''2024-12'' \<noteq> Inr ''2023-01''"
  by code_simp

section \<open>Month bounds\<close>

lemma div_step:
  fixes y k :: int
  assumes "0 < k"
  shows "y div k - (y - 1) div k = (if y mod k = 0 then 1 else 0)"
proof (cases "y mod k = 0")
  case True
  have "y - 1 = k * (y div k - 1) + (k - 1)"
    using True mult_div_mod_eq[of k y] by (simp add: algebra_simps)
  then have "(y - 1) div k = y div k - 1"
    by (rule int_div_pos_eq[where r = "k - 1"]) (use assms in simp_all)
  then show ?thesis using True by simp
next
  case False
  have "0 \<le> y mod k" using assms by simp
  then have p: "0 \<le> y mod k - 1" using False by simp
  have l: "y mod k - 1 < k" using pos_mod_bound[OF assms, of y] by simp
  have "y - 1 = k * (y div k) + (y mod k - 1)"
    using mult_div_mod_eq[of k y] by (simp add: algebra_simps)
  then have "(y - 1) div k = y div k"
    using p l by (rule int_div_pos_eq)
  then show ?thesis using False by simp
qed

lemma days_before_year_step:
  "days_before_year (y + 1) - days_before_year y = (if is_leap y then 366 else 365)"
proof -
  have a: "y mod 400 = 0 \<Longrightarrow> y mod 100 = 0" by presburger
  have b: "y mod 100 = 0 \<Longrightarrow> y mod 4 = 0" by presburger
  have "days_before_year (y + 1) - days_before_year y
        = 365 + (y div 4 - (y - 1) div 4) - (y div 100 - (y - 1) div 100)
          + (y div 400 - (y - 1) div 400)"
    unfolding days_before_year_def by simp
  also have "\<dots> = 365 + (if y mod 4 = 0 then 1 else 0) - (if y mod 100 = 0 then 1 else 0)
          + (if y mod 400 = 0 then 1 else 0)"
    by (simp only: div_step[of 4 y] div_step[of 100 y] div_step[of 400 y] zero_less_numeral)
  also have "\<dots> = (if is_leap y then 366 else 365)"
  proof (cases "y mod 400 = 0")
    case True
    then show ?thesis using a b by (simp add: is_leap_def)
  next
    case n400: False
    show ?thesis
    proof (cases "y mod 100 = 0")
      case True
      then show ?thesis using n400 b by (simp add: is_leap_def)
    next
      case False
      then show ?thesis using n400 by (simp add: is_leap_def)
    qed
  qed
  finally show ?thesis .
qed

lemma days_before_month_step:
  assumes "1 \<le> m" "m \<le> 11"
  shows "days_before_month y (m + 1) - days_before_month y m = days_in_month y m"
proof -
  from assms have "m = 1 \<or> m = 2 \<or> m = 3 \<or> m = 4 \<or> m = 5 \<or> m = 6 \<or> m = 7 \<or> m = 8
      \<or> m = 9 \<or> m = 10 \<or> m = 11" by presburger
  then show ?thesis
    by (elim disjE) (simp_all add: days_before_month_def days_in_month_def)
qed

lemma days_before_month_12: "days_before_month y 12 = (if is_leap y then 335 else 334)"
  by (simp add: days_before_month_def)

lemma days_before_month_1: "days_before_month y 1 = 0"
  by (simp add: days_before_month_def)

text \<open>
  The first day of a month, the first day of the month after it, and midnight UTC of a
  date: the vocabulary the statements about month bounds are written in.
\<close>

definition first_of_month :: "int \<Rightarrow> int \<Rightarrow> date" where
  "first_of_month y m = \<lparr>year = y, month = m, day = 1\<rparr>"

definition next_month :: "int \<Rightarrow> int \<Rightarrow> date" where
  "next_month y m = (if m = 12 then first_of_month (y + 1) 1 else first_of_month y (m + 1))"

lemma next_month_ordinal:
  assumes "1 \<le> m" "m \<le> 12"
  shows "toordinal (next_month y m) - toordinal (first_of_month y m) = days_in_month y m"
proof (cases "m = 12")
  case True
  have "days_in_month y 12 = 31" by (simp add: days_in_month_def)
  then show ?thesis using True days_before_year_step[of y]
    by (simp add: next_month_def first_of_month_def toordinal_def days_before_month_12
        days_before_month_1 split: if_splits)
next
  case False
  then have "m \<le> 11" using assms by simp
  then show ?thesis using False days_before_month_step[OF assms(1), of y]
    by (simp add: next_month_def first_of_month_def toordinal_def)
qed

definition midnight_utc :: "date \<Rightarrow> datetime" where
  "midnight_utc d = \<lparr>dt_date = d, dt_hour = 0, dt_minute = 0, dt_second = 0, dt_tzinfo = UTC\<rparr>"

lemma days_in_month_pos: "28 \<le> days_in_month y m"
  by (simp add: days_in_month_def)

lemma mk_date_first:
  "1 \<le> y \<Longrightarrow> y \<le> 9999 \<Longrightarrow> 1 \<le> m \<Longrightarrow> m \<le> 12 \<Longrightarrow>
   mk_date y m 1 = Inr (first_of_month y m)"
  using days_in_month_pos[of y m] by (simp add: mk_date_def valid_date_def first_of_month_def)

lemma mk_date_year_range: "y < 1 \<or> 9999 < y \<Longrightarrow> mk_date y m d = Inl ValueError"
  by (auto simp: mk_date_def valid_date_def)

lemma mk_datetime_first:
  "1 \<le> y \<Longrightarrow> y \<le> 9999 \<Longrightarrow> 1 \<le> m \<Longrightarrow> m \<le> 12 \<Longrightarrow>
   mk_datetime y m 1 0 0 0 UTC = Inr (midnight_utc (first_of_month y m))"
  by (simp add: mk_datetime_def mk_date_first midnight_utc_def)

lemma month_bounds_utc_value:
  assumes "parse_yyyy_mm s = Inr (y, m)" and "1 \<le> y" and "y \<le> 9999" and "(y, m) \<noteq> (9999, 12)"
  shows "month_bounds_utc s = Inr (midnight_utc (first_of_month y m), midnight_utc (next_month y m))"
proof -
  have r: "1 \<le> m" "m \<le> 12" using parse_yyyy_mm_range[OF assms(1)] by simp_all
  have st: "mk_datetime y m 1 0 0 0 UTC = Inr (midnight_utc (first_of_month y m))"
    using assms(2,3) r by (rule mk_datetime_first)
  have en: "(if m = 12 then mk_datetime (y + 1) 1 1 0 0 0 UTC else mk_datetime y (m + 1) 1 0 0 0 UTC)
            = Inr (midnight_utc (next_month y m))"
  proof (cases "m = 12")
    case True
    then have "y + 1 \<le> 9999" using assms(3,4) by simp
    then show ?thesis using True assms(2) by (simp add: mk_datetime_first next_month_def)
  next
    case False
    then show ?thesis using r assms(2,3) by (simp add: mk_datetime_first next_month_def)
  qed
  show ?thesis unfolding month_bounds_utc_def assms(1) using st en by simp
qed

text \<open>
  C8 (as amended). For every period string that \<open>parse_yyyy_mm\<close> accepts with a year
  from 1 to 9999, December 9999 excepted, \<open>month_bounds_utc\<close> returns the UTC midnight
  of the first day of that month and the UTC midnight of the first day of the following
  month (January of the next year after December), and their difference is exactly the
  number of days of the month, with no seconds left over.
\<close>

theorem month_bounds_utc_month:
  assumes "parse_yyyy_mm s = Inr (y, m)" and "1 \<le> y" and "y \<le> 9999" and "(y, m) \<noteq> (9999, 12)"
  shows "\<exists>st en. month_bounds_utc s = Inr (st, en)
           \<and> st = midnight_utc (first_of_month y m)
           \<and> en = midnight_utc (next_month y m)
           \<and> datetime_sub en st = \<lparr>td_days = days_in_month y m, td_seconds = 0\<rparr>"
proof -
  have r: "1 \<le> m" "m \<le> 12" using parse_yyyy_mm_range[OF assms(1)] by simp_all
  have mb: "month_bounds_utc s = Inr (midnight_utc (first_of_month y m), midnight_utc (next_month y m))"
    using assms by (rule month_bounds_utc_value)
  have "datetime_sub (midnight_utc (next_month y m)) (midnight_utc (first_of_month y m))
          = \<lparr>td_days = days_in_month y m, td_seconds = 0\<rparr>"
    using next_month_ordinal[OF r, of y] by (simp add: datetime_sub_def midnight_utc_def)
  with mb show ?thesis by simp
qed

theorem month_bounds_utc_month_witness:
  "month_bounds_utc ''2024-02'' =
     Inr (midnight_utc \<lparr>year = 2024, month = 2, day = 1\<rparr>, midnight_utc \<lparr>year = 2024, month = 3, day = 1\<rparr>)
   \<and> datetime_sub (midnight_utc \<lparr>year = 2024, month = 3, day = 1\<rparr>)
                   (midnight_utc \<lparr>year = 2024, month = 2, day = 1\<rparr>) = \<lparr>td_days = 29, td_seconds = 0\<rparr>"
proof -
  have p: "parse_yyyy_mm ''2024-02'' = Inr (2024, 2)" by code_simp
  have d: "days_in_month 2024 2 = 29" by code_simp
  from month_bounds_utc_month[OF p] d show ?thesis
    by (simp add: first_of_month_def next_month_def)
qed

text \<open>
  C8 as stated fails for the last month a \<^verbatim>\<open>datetime\<close> can hold: the period parses,
  but the first instant of the following month is in year 10000, which the constructor
  refuses.
\<close>

theorem month_bounds_utc_last_month_counterexample:
  "parse_yyyy_mm ''9999-12'' = Inr (9999, 12) \<and> month_bounds_utc ''9999-12'' = Inl ValueError"
  by code_simp

lemma month_bounds_utc_fails:
  assumes "parse_yyyy_mm s = Inr (y, m)" and "y < 1 \<or> 9999 < y \<or> (y, m) = (9999, 12)"
  shows "month_bounds_utc s = Inl ValueError"
proof (cases "y < 1 \<or> 9999 < y")
  case True
  then have "mk_datetime y m 1 0 0 0 UTC = Inl ValueError"
    by (simp add: mk_datetime_def mk_date_year_range)
  then show ?thesis unfolding month_bounds_utc_def assms(1) by simp
next
  case False
  then have ym: "y = 9999" "m = 12" using assms(2) by auto
  have a: "mk_datetime 9999 12 1 0 0 0 UTC = Inr (midnight_utc (first_of_month 9999 12))"
    by (rule mk_datetime_first) simp_all
  have b: "mk_datetime (9999 + 1) 1 1 0 0 0 UTC = Inl ValueError"
    by (simp add: mk_datetime_def mk_date_year_range)
  show ?thesis unfolding month_bounds_utc_def assms(1) ym using a b by simp
qed

section \<open>Entries, category normalisation and the food classifier\<close>

text \<open>
  An entry is a row of the \<^verbatim>\<open>entries\<close> table as a dictionary. The text columns hold a
  \<^verbatim>\<open>str\<close> or \<^verbatim>\<open>None\<close> (an absent key reads as \<^verbatim>\<open>None\<close> through \<^verbatim>\<open>dict.get\<close>). The
  amount is any of \<^verbatim>\<open>None\<close>, a number or a string; \<^verbatim>\<open>float(s)\<close> on a string is the
  library's parser, taken as a parameter \<open>fl\<close> that returns \<open>None\<close> where
  \<^verbatim>\<open>float\<close> raises. The timestamp is \<^verbatim>\<open>None\<close>, a \<^verbatim>\<open>datetime\<close> object or a string.
\<close>

datatype pyval = PNone | PNum real | PStr string

datatype 'dt created = CNone | CDatetime 'dt | CStr string

record 'dt entry =
  amount :: pyval
  title :: "string option"
  beneficiary_name :: "string option"
  raw_text :: "string option"
  category :: "string option"
  category_normalized :: "string option"
  created_at :: "'dt created"

definition NECESSITY_BASE :: "string list" where
  "NECESSITY_BASE = [''rent'', ''grocery'', ''utility'', ''fuel'', ''transport'', ''health'',
                     ''education'']"

definition DISCRETIONARY_BASE :: "string list" where
  "DISCRETIONARY_BASE = [''shopping'', ''entertainment'', ''charity'', ''subscriptions'',
                         ''travel'']"

definition RESTAURANT_KEYWORDS :: "string list" where
  "RESTAURANT_KEYWORDS =
     [''kfc'', ''mcdonald'', ''mc donald'', ''dominos'', ''domino'', ''pizza'', ''burger'',
      ''shawarma'', ''restaurant'', ''cafe'', ''coffee'', ''bistro'', ''foodpanda'',
      ''food panda'', ''careem food'', ''delivery'', ''dine'', ''bbq'', ''karahi'', ''nihari'']"

definition HOME_FOOD_KEYWORDS :: "string list" where
  "HOME_FOOD_KEYWORDS =
     [''grocery'', ''super'', ''mart'', ''store'', ''cash&carry'', ''cash and carry'',
      ''imtiyaz'', ''metro'', ''utility store'', ''ration'', ''kirana'']"

definition FOOD_EXPENSIVE_RS :: real where
  "FOOD_EXPENSIVE_RS = 1800"

definition truthy :: "pyval \<Rightarrow> bool" where
  "truthy v = (case v of PNone \<Rightarrow> False | PNum x \<Rightarrow> x \<noteq> 0 | PStr s \<Rightarrow> s \<noteq> [])"

definition py_float :: "(string \<Rightarrow> real option) \<Rightarrow> pyval \<Rightarrow> error + real" where
  \<comment> \<open>\<^verbatim>\<open>float(x)\<close>\<close>
  "py_float fl v =
     (case v of PNone \<Rightarrow> Inl TypeError | PNum x \<Rightarrow> Inr x
      | PStr s \<Rightarrow> (case fl s of None \<Rightarrow> Inl ValueError | Some x \<Rightarrow> Inr x))"

definition to_float :: "(string \<Rightarrow> real option) \<Rightarrow> pyval \<Rightarrow> real" where
  "to_float fl v = (case py_float fl v of Inl e \<Rightarrow> 0 | Inr x \<Rightarrow> x)"

definition or_empty :: "string option \<Rightarrow> string" where
  \<comment> \<open>\<^verbatim>\<open>x or ""\<close>\<close>
  "or_empty x = (case x of None \<Rightarrow> [] | Some s \<Rightarrow> s)"

fun join_space :: "string list \<Rightarrow> string" where
  \<comment> \<open>\<^verbatim>\<open>" ".join(parts)\<close>\<close>
  "join_space [] = []"
| "join_space [p] = p"
| "join_space (p # q # ps) = p @ '' '' @ join_space (q # ps)"

definition text_blob :: "'dt entry \<Rightarrow> string" where
  "text_blob e =
     (let parts = [title e, beneficiary_name e, raw_text e, category e, category_normalized e]
      in py_lower (join_space (filter (\<lambda>p. p \<noteq> []) (map or_empty parts))))"

definition normalize_category :: "'dt entry \<Rightarrow> string" where
  "normalize_category e =
     (let cn = py_lower (py_strip (or_empty (category_normalized e))) in
      if cn \<noteq> [] then cn
      else
        let c = py_lower (py_strip (or_empty (category e))) in
        if contains ''utility'' c then ''utility''
        else if contains ''fund'' c \<or> contains ''transfer'' c then ''funds_transfer''
        else if contains ''groc'' c then ''grocery''
        else if contains ''shop'' c then ''shopping''
        else if contains ''fuel'' c \<or> contains ''petrol'' c then ''fuel''
        else if contains ''food'' c then ''food''
        else if contains ''rent'' c then ''rent''
        else if c \<noteq> [] then c else ''other'')"

definition classify_food_unnecessary :: "(string \<Rightarrow> real option) \<Rightarrow> 'dt entry \<Rightarrow> bool \<times> string" where
  "classify_food_unnecessary fl e =
     (let blob = text_blob e; amt = to_float fl (amount e) in
      if list_ex (\<lambda>k. contains k blob) HOME_FOOD_KEYWORDS then (False, ''home_food_keyword'')
      else if list_ex (\<lambda>k. contains k blob) RESTAURANT_KEYWORDS then (True, ''restaurant_keyword'')
      else if amt \<ge> FOOD_EXPENSIVE_RS then (True, ''expensive_food_amount'')
      else (False, ''unknown_food_type''))"

text \<open>
  The rule table of the category normaliser as the specification words it: an ordered
  list of keyword groups with their bucket, the first group with a keyword occurring in
  the text winning.
\<close>

definition category_rules :: "(string list \<times> string) list" where
  "category_rules =
     [([''utility''], ''utility''),
      ([''fund'', ''transfer''], ''funds_transfer''),
      ([''groc''], ''grocery''),
      ([''shop''], ''shopping''),
      ([''fuel'', ''petrol''], ''fuel''),
      ([''food''], ''food''),
      ([''rent''], ''rent'')]"

fun first_match :: "(string list \<times> string) list \<Rightarrow> string \<Rightarrow> string option" where
  "first_match [] c = None"
| "first_match ((ks, b) # rs) c = (if \<exists>k\<in>set ks. contains k c then Some b else first_match rs c)"

subsection \<open>Properties of the normaliser and the classifier\<close>

text \<open>An entry with every field absent, the base of the concrete examples.\<close>

definition blank_entry :: "unit entry" where
  "blank_entry = \<lparr>amount = PNone, title = None, beneficiary_name = None, raw_text = None,
                   category = None, category_normalized = None, created_at = CNone\<rparr>"

text \<open>
  C6. When the trimmed, lower-cased \<open>category_normalized\<close> field is not empty it is the
  result. Otherwise the trimmed, lower-cased raw category is matched against the rule
  table in its fixed order, the first rule with a keyword occurring in it giving the
  bucket; with no match the result is that text itself, or \<open>other\<close> when it is empty.
\<close>

theorem normalize_category_rules:
  "normalize_category e =
     (let cn = py_lower (py_strip (or_empty (category_normalized e)));
          c = py_lower (py_strip (or_empty (category e)))
      in if cn \<noteq> [] then cn
         else (case first_match category_rules c of
                 Some b \<Rightarrow> b
               | None \<Rightarrow> if c = [] then ''other'' else c))"
  by (simp add: normalize_category_def category_rules_def Let_def)

theorem normalize_category_rules_witness:
  "normalize_category (blank_entry\<lparr>category := Some ''Fast Food Fund''\<rparr>) = ''funds_transfer''"
proof -
  let ?e = "blank_entry\<lparr>category := Some ''Fast Food Fund''\<rparr>"
  have cn: "py_lower (py_strip (or_empty (category_normalized ?e))) = []" by code_simp
  have fm: "first_match category_rules (py_lower (py_strip (or_empty (category ?e))))
            = Some ''funds_transfer''" by code_simp
  show ?thesis
    using normalize_category_rules[of ?e] unfolding Let_def cn fm by simp
qed

lemma normalize_category_fund_before_food:
  assumes "py_strip (or_empty (category_normalized e)) = []"
    and "contains ''fund'' (py_lower (py_strip (or_empty (category e))))"
    and "\<not> contains ''utility'' (py_lower (py_strip (or_empty (category e))))"
  shows "normalize_category e = ''funds_transfer''"
  using assms by (simp add: normalize_category_def py_lower_def)

lemma normalize_category_examples:
  "normalize_category (blank_entry\<lparr>category := Some ''Grocery Store''\<rparr>) = ''grocery''"
  "normalize_category (blank_entry\<lparr>category := Some ''fund transfer''\<rparr>) = ''funds_transfer''"
  "normalize_category (blank_entry\<lparr>category := Some ''''\<rparr>) = ''other''"
  "normalize_category blank_entry = ''other''"
  "normalize_category (blank_entry\<lparr>category := Some '' Gym ''\<rparr>) = ''gym''"
  "normalize_category (blank_entry\<lparr>category := Some ''rent'',
                                    category_normalized := Some '' Food ''\<rparr>) = ''food''"
  by code_simp+

lemma text_blob_all_present:
  assumes "t \<noteq> []" "b \<noteq> []" "r \<noteq> []" "c \<noteq> []" "n \<noteq> []"
  shows "text_blob \<lparr>amount = a, title = Some t, beneficiary_name = Some b, raw_text = Some r,
                     category = Some c, category_normalized = Some n, created_at = ts\<rparr>
         = py_lower (t @ '' '' @ b @ '' '' @ r @ '' '' @ c @ '' '' @ n)"
  using assms by (simp add: text_blob_def or_empty_def)

lemma text_blob_skips_absent:
  "text_blob (blank_entry\<lparr>title := Some ''KFC'', raw_text := Some '''', category := Some ''Food''\<rparr>)
   = ''kfc food''"
  by code_simp



section \<open>Months overlapping a range\<close>

definition advance_month :: "date \<Rightarrow> error + date" where
  \<comment> \<open>the first day of the month after \<open>cur\<close>, as the loop builds it\<close>
  "advance_month cur =
     (if month cur = 12 then mk_date (year cur + 1) 1 1 else mk_date (year cur) (month cur + 1) 1)"

function month_loop :: "date \<Rightarrow> date \<Rightarrow> string list \<Rightarrow> error + string list" where
  "month_loop cur end out =
     (if date_less cur end
      then (case advance_month cur of
              Inl e \<Rightarrow> Inl e
            | Inr nxt \<Rightarrow> month_loop nxt end (out @ [month_str cur]))
      else Inr out)"
  by pat_completeness auto
termination
proof (relation "measure (\<lambda>(cur, end, out). nat (120000 - (12 * year cur + month cur)))")
  show "wf (measure (\<lambda>(cur, end, out). nat (120000 - (12 * year cur + month cur))))"
    by simp
next
  fix cur "end" :: date and out :: "string list" and nxt :: date
  assume "date_less cur end" and a: "advance_month cur = Inr nxt"
  have v: "valid_date nxt \<and> 12 * year nxt + month nxt = 12 * year cur + month cur + 1"
    using a by (auto simp: advance_month_def mk_date_def Let_def split: if_splits)
  then have "12 * year nxt + month nxt \<le> 120000"
    by (simp add: valid_date_def)
  with v show "((nxt, end, out @ [month_str cur]), (cur, end, out))
        \<in> measure (\<lambda>(cur, end, out). nat (120000 - (12 * year cur + month cur)))"
    by simp
qed

declare month_loop.simps [simp del]

fun dedupe_loop :: "string set \<Rightarrow> string list \<Rightarrow> string list \<Rightarrow> string list" where
  \<comment> \<open>the de-duplication loop: \<open>seen\<close>, \<open>final\<close> and the rest of \<open>out\<close>\<close>
  "dedupe_loop seen final [] = final"
| "dedupe_loop seen final (x # xs) =
     (if x \<in> seen then dedupe_loop seen final xs
      else dedupe_loop (insert x seen) (final @ [x]) xs)"

definition split_range_by_month :: "date \<Rightarrow> date \<Rightarrow> error + string list" where
  "split_range_by_month start end =
     (if date_le end start then Inr []
      else (case mk_date (year start) (month start) 1 of
              Inl e \<Rightarrow> Inl e
            | Inr cur \<Rightarrow>
                (case month_loop cur end [] of
                   Inl e \<Rightarrow> Inl e
                 | Inr out \<Rightarrow>
                     let sm = month_str start;
                         out' = (if sm \<notin> set out then sm # out else out)
                     in Inr (dedupe_loop {} [] out'))))"

subsection \<open>The months a range overlaps\<close>

text \<open>
  Months are counted by an index, twelve to a year, so that the month after index \<open>i\<close>
  has index \<open>i + 1\<close>. A calendar month intersects the half-open range
  \<open>[start, end)\<close> when the later of the two starts lies before the earlier of the two
  ends.
\<close>

definition month_index :: "date \<Rightarrow> int" where
  "month_index d = 12 * year d + (month d - 1)"

definition index_date :: "int \<Rightarrow> date" where
  "index_date i = first_of_month (i div 12) (i mod 12 + 1)"

definition index_month_str :: "int \<Rightarrow> string" where
  "index_month_str i = month_str (index_date i)"

definition last_month_index :: "date \<Rightarrow> int" where
  "last_month_index e = (if day e = 1 then month_index e - 1 else month_index e)"

definition month_intersects :: "int \<Rightarrow> int \<Rightarrow> date \<Rightarrow> date \<Rightarrow> bool" where
  "month_intersects y m s e =
     date_less (date_max s (first_of_month y m)) (date_min e (next_month y m))"

definition date_key :: "date \<Rightarrow> int" where
  "date_key d = 32 * month_index d + day d"

lemma date_less_key:
  assumes "1 \<le> month a" "month a \<le> 12" "1 \<le> day a" "day a \<le> 31"
    and "1 \<le> month b" "month b \<le> 12" "1 \<le> day b" "day b \<le> 31"
  shows "date_less a b \<longleftrightarrow> date_key a < date_key b"
  using assms unfolding date_less_def date_key_def month_index_def by auto

lemma days_in_month_le: "days_in_month y m \<le> 31"
  by (simp add: days_in_month_def)

lemma valid_date_bounds:
  assumes "valid_date d"
  shows "1 \<le> month d" "month d \<le> 12" "1 \<le> day d" "day d \<le> 31" "1 \<le> year d" "year d \<le> 9999"
  using assms days_in_month_le[of "year d" "month d"] by (auto simp: valid_date_def)

lemma index_date_fields:
  "year (index_date i) = i div 12" "month (index_date i) = i mod 12 + 1" "day (index_date i) = 1"
  by (simp_all add: index_date_def first_of_month_def)

lemma month_index_index_date: "month_index (index_date i) = i"
  by (simp add: month_index_def index_date_fields)

lemma index_date_month_index:
  assumes "1 \<le> m" "m \<le> 12"
  shows "index_date (12 * y + (m - 1)) = first_of_month y m"
proof -
  have "(12 * y + (m - 1)) div 12 = y" "(12 * y + (m - 1)) mod 12 = m - 1"
    using assms by auto
  then show ?thesis by (simp add: index_date_def)
qed

lemma date_key_index_date: "date_key (index_date i) = 32 * i + 1"
  by (simp add: date_key_def month_index_index_date index_date_fields)

lemma date_less_index_date:
  assumes "valid_date e"
  shows "date_less (index_date i) e \<longleftrightarrow> i \<le> last_month_index e"
proof -
  have m: "1 \<le> month (index_date i)" "month (index_date i) \<le> 12"
    by (simp_all add: index_date_fields)
  have "date_less (index_date i) e \<longleftrightarrow> date_key (index_date i) < date_key e"
    using valid_date_bounds[OF assms] m
    by (intro date_less_key) (simp_all add: index_date_fields)
  also have "\<dots> \<longleftrightarrow> i \<le> last_month_index e"
    unfolding date_key_index_date using valid_date_bounds[OF assms]
    by (auto simp: date_key_def last_month_index_def)
  finally show ?thesis .
qed

lemma index_split:
  obtains q r :: int where "i = 12 * q + r" "0 \<le> r" "r < 12" "i div 12 = q" "i mod 12 = r"
  using mult_div_mod_eq[of 12 i] pos_mod_sign[of 12 i] pos_mod_bound[of 12 i]
  by (metis zero_less_numeral)

lemma advance_month_index:
  assumes "12 \<le> i" "i \<le> 119998"
  shows "advance_month (index_date i) = Inr (index_date (i + 1))"
proof -
  obtain q r :: int where qr: "i = 12 * q + r" "0 \<le> r" "r < 12" "i div 12 = q" "i mod 12 = r"
    by (rule index_split)
  have q1: "1 \<le> q" "q \<le> 9999" using assms qr(1,2,3) by linarith+
  show ?thesis
  proof (cases "r = 11")
    case True
    have e: "i + 1 = 12 * (q + 1) + 0" using qr(1) True by simp
    have d: "(i + 1) div 12 = q + 1" "(i + 1) mod 12 = 0"
      using int_div_pos_eq[OF e] int_mod_pos_eq[OF e] by simp_all
    have "q + 1 \<le> 9999" using assms qr(1) True by linarith
    then have "mk_date (q + 1) 1 1 = Inr (first_of_month (q + 1) 1)"
      using q1 by (intro mk_date_first) simp_all
    then show ?thesis using True d qr(4,5)
      by (simp add: advance_month_def index_date_fields) (simp add: index_date_def)
  next
    case False
    have e: "i + 1 = 12 * q + (r + 1)" using qr(1) by simp
    have r1: "0 \<le> r + 1" "r + 1 < 12" using qr(2,3) False by linarith+
    have d: "(i + 1) div 12 = q" "(i + 1) mod 12 = r + 1"
      using int_div_pos_eq[OF e r1] int_mod_pos_eq[OF e r1] by simp_all
    have "mk_date q (r + 1 + 1) 1 = Inr (first_of_month q (r + 1 + 1))"
      using q1 r1 by (intro mk_date_first) simp_all
    then show ?thesis using False d qr(4,5)
      by (simp add: advance_month_def index_date_fields) (simp add: index_date_def)
  qed
qed

lemma advance_month_last: "advance_month (index_date 119999) = Inl ValueError"
  by (simp add: advance_month_def index_date_fields mk_date_year_range)

lemma month_loop_runs:
  assumes "valid_date e" "12 \<le> i" "i \<le> last_month_index e + 1" "last_month_index e \<le> 119998"
  shows "month_loop (index_date i) e out = Inr (out @ map index_month_str [i..last_month_index e])"
  using assms(2,3)
proof (induction "nat (last_month_index e + 1 - i)" arbitrary: i out)
  case 0
  then have "\<not> i \<le> last_month_index e" by simp
  then have "\<not> date_less (index_date i) e" "[i..last_month_index e] = []"
    using date_less_index_date[OF assms(1)] by simp_all
  then show ?case by (subst month_loop.simps) simp
next
  case (Suc n)
  then have le: "i \<le> last_month_index e" by linarith
  then have dl: "date_less (index_date i) e"
    using date_less_index_date[OF assms(1)] by simp
  have adv: "advance_month (index_date i) = Inr (index_date (i + 1))"
    using Suc.prems(1) le assms(4) by (intro advance_month_index) linarith+
  have n: "n = nat (last_month_index e + 1 - (i + 1))" using Suc.hyps(2) by linarith
  have ih: "month_loop (index_date (i + 1)) e (out @ [month_str (index_date i)])
            = Inr ((out @ [month_str (index_date i)]) @ map index_month_str [i + 1..last_month_index e])"
    using Suc.prems(1) le by (intro Suc.hyps(1)[OF n]) linarith+
  have up: "[i..last_month_index e] = i # [i + 1..last_month_index e]"
    using le by (simp add: upto_rec1)
  show ?case
    by (subst month_loop.simps) (simp add: dl adv ih up index_month_str_def)
qed

lemma month_loop_overflows:
  assumes "valid_date e" "12 \<le> i" "i \<le> 119999" "last_month_index e = 119999"
  shows "month_loop (index_date i) e out = Inl ValueError"
  using assms(2,3)
proof (induction "nat (119999 - i)" arbitrary: i out)
  case 0
  then have i: "i = 119999" by simp
  have "date_less (index_date i) e"
    using date_less_index_date[OF assms(1)] assms(4) i by simp
  then show ?case unfolding i
    by (subst month_loop.simps) (simp add: advance_month_last)
next
  case (Suc n)
  then have le: "i \<le> 119998" by linarith
  then have dl: "date_less (index_date i) e"
    using date_less_index_date[OF assms(1)] assms(4) by simp
  have adv: "advance_month (index_date i) = Inr (index_date (i + 1))"
    using Suc.prems(1) le by (rule advance_month_index)
  have n: "n = nat (119999 - (i + 1))" using Suc.hyps(2) by linarith
  have ih: "month_loop (index_date (i + 1)) e (out @ [month_str (index_date i)]) = Inl ValueError"
    using Suc.prems(1) le by (intro Suc.hyps(1)[OF n]) linarith+
  show ?case
    by (subst month_loop.simps) (simp add: dl adv ih)
qed

lemma parse_index_month_str:
  assumes "0 \<le> i"
  shows "parse_yyyy_mm (index_month_str i) = Inr (i div 12, i mod 12 + 1)"
proof -
  have "0 \<le> i div 12" using assms by (simp add: pos_imp_zdiv_nonneg_iff)
  moreover have "1 \<le> i mod 12 + 1" "i mod 12 + 1 \<le> 12"
    using pos_mod_sign[of 12 i] pos_mod_bound[of 12 i] by simp_all
  ultimately show ?thesis
    unfolding index_month_str_def month_str_def index_date_fields
    by (rule parse_month_text)
qed

lemma index_month_str_inj:
  assumes "0 \<le> i" "0 \<le> j" "index_month_str i = index_month_str j"
  shows "i = j"
proof -
  have "Inr (i div 12, i mod 12 + 1) = (Inr (j div 12, j mod 12 + 1) :: error + int \<times> int)"
    using parse_index_month_str[OF assms(1)] parse_index_month_str[OF assms(2)] assms(3) by simp
  then have "i div 12 = j div 12" "i mod 12 = j mod 12" by simp_all
  then show ?thesis by (metis mult_div_mod_eq)
qed

lemma distinct_index_month_strs:
  assumes "0 \<le> i"
  shows "distinct (map index_month_str [i..j])"
proof -
  have "inj_on index_month_str (set [i..j])"
    using assms by (intro inj_onI index_month_str_inj) auto
  then show ?thesis by (simp add: distinct_map)
qed

lemma dedupe_loop_distinct:
  "distinct xs \<Longrightarrow> set xs \<inter> seen = {} \<Longrightarrow> dedupe_loop seen final xs = final @ xs"
  by (induction xs arbitrary: seen final) auto

lemma dedupe_loop_no_duplicates:
  "distinct final \<Longrightarrow> set final \<subseteq> seen \<Longrightarrow> distinct (dedupe_loop seen final xs)"
proof (induction xs arbitrary: seen final)
  case Nil
  then show ?case by simp
next
  case (Cons a xs)
  show ?case
  proof (cases "a \<in> seen")
    case True
    then show ?thesis using Cons by simp
  next
    case False
    have "distinct (final @ [a])" "set (final @ [a]) \<subseteq> insert a seen"
      using Cons.prems False by auto
    then have "distinct (dedupe_loop (insert a seen) (final @ [a]) xs)"
      by (rule Cons.IH)
    then show ?thesis using False by simp
  qed
qed

lemma date_less_not_le: "date_less a b \<Longrightarrow> \<not> date_le b a"
  by (auto simp: date_less_def date_le_def)

lemma date_not_le_less: "\<not> date_le b a \<Longrightarrow> date_less a b"
  by (cases a, cases b) (auto simp: date_less_def date_le_def)

lemma valid_date_key:
  assumes "valid_date a" "valid_date b"
  shows "date_less a b \<longleftrightarrow> date_key a < date_key b"
  using valid_date_bounds[OF assms(1)] valid_date_bounds[OF assms(2)] by (intro date_less_key)

lemma start_index_le_last:
  assumes "valid_date s" "valid_date e" "date_less s e"
  shows "month_index s \<le> last_month_index e"
  using assms(3) valid_date_bounds[OF assms(1)] valid_date_bounds[OF assms(2)]
  unfolding valid_date_key[OF assms(1,2)] date_key_def last_month_index_def
  by (simp split: if_splits)

lemma month_index_range:
  assumes "valid_date d"
  shows "12 \<le> month_index d" "month_index d \<le> 119999"
  using valid_date_bounds[OF assms] by (simp_all add: month_index_def)

text \<open>The first day of the last month a date can lie in.\<close>

definition last_start :: date where
  "last_start = \<lparr>year = 9999, month = 12, day = 1\<rparr>"

lemma valid_last_start: "valid_date last_start"
  by (simp add: last_start_def valid_date_def days_in_month_def)

lemma last_index_in_range:
  assumes "valid_date e" "date_le e last_start"
  shows "last_month_index e \<le> 119998"
proof (cases "e = last_start")
  case True
  then show ?thesis by (simp add: last_month_index_def month_index_def last_start_def)
next
  case False
  then have "date_key e < date_key last_start"
    using assms(2) valid_date_key[OF assms(1) valid_last_start] by (simp add: date_le_def)
  then show ?thesis using valid_date_bounds[OF assms(1)]
    by (simp add: date_key_def last_month_index_def last_start_def month_index_def split: if_splits)
qed

lemma last_index_overflow:
  assumes "valid_date e" "date_less last_start e"
  shows "last_month_index e = 119999"
proof -
  have "date_key last_start < date_key e"
    using assms(2) valid_date_key[OF valid_last_start assms(1)] by simp
  then show ?thesis using valid_date_bounds[OF assms(1)]
    by (simp add: date_key_def last_month_index_def last_start_def month_index_def split: if_splits)
qed

lemma start_of_loop:
  assumes "valid_date s"
  shows "mk_date (year s) (month s) 1 = Inr (index_date (month_index s))"
    and "month_str s = index_month_str (month_index s)"
proof -
  have i: "index_date (month_index s) = first_of_month (year s) (month s)"
    unfolding month_index_def using valid_date_bounds(1,2)[OF assms] by (rule index_date_month_index)
  show "mk_date (year s) (month s) 1 = Inr (index_date (month_index s))"
    unfolding i using valid_date_bounds[OF assms] by (intro mk_date_first)
  show "month_str s = index_month_str (month_index s)"
    by (simp add: index_month_str_def i month_str_def first_of_month_def)
qed

lemma split_range_by_month_value:
  assumes "valid_date s" "valid_date e" "date_less s e" "date_le e last_start"
  shows "split_range_by_month s e = Inr (map index_month_str [month_index s..last_month_index e])"
proof -
  let ?r = "map index_month_str [month_index s..last_month_index e]"
  have le: "month_index s \<le> last_month_index e"
    using assms(1,2,3) by (rule start_index_le_last)
  have loop: "month_loop (index_date (month_index s)) e [] = Inr ([] @ ?r)"
    using assms(2) month_index_range(1)[OF assms(1)] le last_index_in_range[OF assms(2,4)]
    by (intro month_loop_runs) linarith+
  have mem: "month_str s \<in> set ?r"
    using le by (simp add: start_of_loop(2)[OF assms(1)])
  have d: "distinct ?r"
    using month_index_range(1)[OF assms(1)] by (intro distinct_index_month_strs) linarith
  have dd: "dedupe_loop {} [] ?r = [] @ ?r"
    using d by (intro dedupe_loop_distinct) simp_all
  show ?thesis
    unfolding split_range_by_month_def start_of_loop(1)[OF assms(1)]
    using date_less_not_le[OF assms(3)] loop mem dd by (simp add: Let_def)
qed

lemma split_range_by_month_overflow:
  assumes "valid_date s" "valid_date e" "date_less s e" "date_less last_start e"
  shows "split_range_by_month s e = Inl ValueError"
proof -
  have loop: "month_loop (index_date (month_index s)) e [] = Inl ValueError"
    using assms(2) month_index_range[OF assms(1)] last_index_overflow[OF assms(2,4)]
    by (intro month_loop_overflows)
  show ?thesis
    unfolding split_range_by_month_def start_of_loop(1)[OF assms(1)]
    using date_less_not_le[OF assms(3)] loop by simp
qed

lemma month_intersects_index:
  assumes "valid_date s" "valid_date e" "date_less s e"
  shows "month_intersects (i div 12) (i mod 12 + 1) s e
         \<longleftrightarrow> month_index s \<le> i \<and> i \<le> last_month_index e"
proof -
  let ?a = "index_date i" and ?b = "index_date (i + 1)"
  obtain q r :: int where qr: "i = 12 * q + r" "0 \<le> r" "r < 12" "i div 12 = q" "i mod 12 = r"
    by (rule index_split)
  have nm: "next_month (i div 12) (i mod 12 + 1) = ?b"
  proof (cases "r = 11")
    case True
    have e: "i + 1 = 12 * (q + 1) + 0" using qr(1) True by simp
    show ?thesis using int_div_pos_eq[OF e] int_mod_pos_eq[OF e] True qr(4,5)
      by (simp add: next_month_def index_date_def)
  next
    case False
    have e: "i + 1 = 12 * q + (r + 1)" using qr(1) by simp
    have r1: "0 \<le> r + 1" "r + 1 < 12" using qr(2,3) False by linarith+
    show ?thesis using int_div_pos_eq[OF e r1] int_mod_pos_eq[OF e r1] False qr(4,5)
      by (simp add: next_month_def index_date_def)
  qed
  have ba: "1 \<le> month ?a" "month ?a \<le> 12" "1 \<le> day ?a" "day ?a \<le> 31"
    and bb: "1 \<le> month ?b" "month ?b \<le> 12" "1 \<le> day ?b" "day ?b \<le> 31"
    by (simp_all add: index_date_fields)
  note bs = valid_date_bounds(1-4)[OF assms(1)] and be = valid_date_bounds(1-4)[OF assms(2)]
  have k: "date_less s ?a \<longleftrightarrow> date_key s < 32 * i + 1"
      "date_less ?b e \<longleftrightarrow> 32 * (i + 1) + 1 < date_key e"
      "date_less s ?b \<longleftrightarrow> date_key s < 32 * (i + 1) + 1"
      "date_less ?a e \<longleftrightarrow> date_key ?a < date_key e"
      "date_less ?a ?b" "date_less s e \<longleftrightarrow> date_key s < date_key e"
    using date_less_key[OF bs ba] date_less_key[OF bb be] date_less_key[OF bs bb]
      date_less_key[OF ba be] date_less_key[OF ba bb] date_less_key[OF bs be]
    by (simp_all add: date_key_index_date)
  have "month_intersects (i div 12) (i mod 12 + 1) s e
        \<longleftrightarrow> date_less (date_max s ?a) (date_min e ?b)"
    by (simp add: month_intersects_def nm index_date_def)
  also have "\<dots> \<longleftrightarrow> date_less s ?b \<and> date_less ?a e"
    using k assms(3) by (auto simp: date_max_def date_min_def date_key_index_date)
  also have "\<dots> \<longleftrightarrow> month_index s \<le> i \<and> i \<le> last_month_index e"
    unfolding k(3) date_less_index_date[OF assms(2)]
    using bs by (auto simp: date_key_def)
  finally show ?thesis .
qed

text \<open>
  What the function returns away from the end of the calendar. For valid dates: when
  \<open>end \<le> start\<close> the result is empty. When \<open>start < end\<close> and \<open>end\<close> is not after
  1 December 9999, the function returns the period strings of the months from the month
  of \<open>start\<close> to the last month that begins before \<open>end\<close>, in calendar order; the list
  contains the month of \<open>start\<close>, has no duplicates, and its months are exactly those
  that intersect \<open>[start, end)\<close>.
\<close>

lemma split_range_by_month_months:
  assumes "valid_date s" "valid_date e"
  shows "(date_le e s \<longrightarrow> split_range_by_month s e = Inr [])
       \<and> (date_less s e \<and> date_le e last_start \<longrightarrow>
            (\<exists>r. split_range_by_month s e = Inr r
               \<and> r = map index_month_str [month_index s..last_month_index e]
               \<and> month_str s \<in> set r \<and> distinct r
               \<and> (\<forall>i. i \<in> set [month_index s..last_month_index e]
                        \<longleftrightarrow> month_intersects (i div 12) (i mod 12 + 1) s e)))"
proof (intro conjI impI)
  assume "date_le e s"
  then show "split_range_by_month s e = Inr []"
    by (simp add: split_range_by_month_def)
next
  assume a: "date_less s e \<and> date_le e last_start"
  let ?r = "map index_month_str [month_index s..last_month_index e]"
  have v: "split_range_by_month s e = Inr ?r"
    using assms a by (intro split_range_by_month_value) simp_all
  have le: "month_index s \<le> last_month_index e"
    using assms a by (intro start_index_le_last) simp_all
  have mem: "month_str s \<in> set ?r"
    using le by (simp add: start_of_loop(2)[OF assms(1)])
  have d: "distinct ?r"
    using month_index_range(1)[OF assms(1)] by (intro distinct_index_month_strs) linarith
  have x: "\<forall>i. i \<in> set [month_index s..last_month_index e]
             \<longleftrightarrow> month_intersects (i div 12) (i mod 12 + 1) s e"
    using month_intersects_index[OF assms] a by simp
  from v mem d x
  show "\<exists>r. split_range_by_month s e = Inr r
          \<and> r = map index_month_str [month_index s..last_month_index e]
          \<and> month_str s \<in> set r \<and> distinct r
          \<and> (\<forall>i. i \<in> set [month_index s..last_month_index e]
                   \<longleftrightarrow> month_intersects (i div 12) (i mod 12 + 1) s e)"
    by blast
qed

lemma split_range_by_month_example:
  "split_range_by_month \<lparr>year = 2024, month = 11, day = 15\<rparr> \<lparr>year = 2025, month = 2, day = 2\<rparr>
     = Inr [''2024-11'', ''2024-12'', ''2025-01'', ''2025-02'']
   \<and> split_range_by_month \<lparr>year = 2025, month = 2, day = 2\<rparr> \<lparr>year = 2024, month = 11, day = 15\<rparr>
     = Inr []"
proof -
  let ?s = "\<lparr>year = 2024, month = 11, day = 15\<rparr>" and ?e = "\<lparr>year = 2025, month = 2, day = 2\<rparr>"
  have vs: "valid_date ?s" and ve: "valid_date ?e" by code_simp+
  have h: "date_less ?s ?e \<and> date_le ?e last_start" by code_simp
  have h2: "date_le ?s ?e" by code_simp
  have r: "map index_month_str [month_index ?s..last_month_index ?e]
           = [''2024-11'', ''2024-12'', ''2025-01'', ''2025-02'']" by code_simp
  from split_range_by_month_months[OF vs ve] h r
  have 1: "split_range_by_month ?s ?e = Inr [''2024-11'', ''2024-12'', ''2025-01'', ''2025-02'']"
    by auto
  from split_range_by_month_months[OF ve vs] h2
  have 2: "split_range_by_month ?e ?s = Inr []" by blast
  from 1 2 show ?thesis by blast
qed

lemma digit_char_values:
  "digit_char 0 = CHR ''0''" "digit_char 1 = CHR ''1''" "digit_char 2 = CHR ''2''"
  "digit_char 3 = CHR ''3''" "digit_char 4 = CHR ''4''" "digit_char 5 = CHR ''5''"
  "digit_char 6 = CHR ''6''" "digit_char 7 = CHR ''7''" "digit_char 8 = CHR ''8''"
  "digit_char 9 = CHR ''9''" "digit_char (Suc 0) = CHR ''1''"
  by code_simp+

lemma month_str_last: "month_str \<lparr>year = 9999, month = 12, day = d\<rparr> = ''9999-12''"
  by (simp add: month_str_def py_str_int_def fmt_02d_def nat_digits.simps digit_char_values)

text \<open>
  C5. The claim asks, for every pair of dates with \<open>start < end\<close>, for the list of the
  months that intersect \<open>[start, end)\<close>, the month of \<open>start\<close> among them. For the
  valid dates 1 and 2 December 9999 that list is \<open>[9999-12]\<close>: the month intersects the
  range and its period string exists. The function raises \<^verbatim>\<open>ValueError\<close> instead: having
  appended the month, the loop builds the first day of the following month,
  \<^verbatim>\<open>date(10000, 1, 1)\<close>, before it tests whether to go on.
\<close>

theorem split_range_by_month_raises_in_last_month:
  "valid_date \<lparr>year = 9999, month = 12, day = 1\<rparr> \<and> valid_date \<lparr>year = 9999, month = 12, day = 2\<rparr>
   \<and> date_less \<lparr>year = 9999, month = 12, day = 1\<rparr> \<lparr>year = 9999, month = 12, day = 2\<rparr>
   \<and> month_intersects 9999 12 \<lparr>year = 9999, month = 12, day = 1\<rparr> \<lparr>year = 9999, month = 12, day = 2\<rparr>
   \<and> month_str \<lparr>year = 9999, month = 12, day = 1\<rparr> = ''9999-12''
   \<and> split_range_by_month \<lparr>year = 9999, month = 12, day = 1\<rparr> \<lparr>year = 9999, month = 12, day = 2\<rparr>
       = Inl ValueError"
proof -
  have "valid_date \<lparr>year = 9999, month = 12, day = 1\<rparr> \<and> valid_date \<lparr>year = 9999, month = 12, day = 2\<rparr>
   \<and> date_less \<lparr>year = 9999, month = 12, day = 1\<rparr> \<lparr>year = 9999, month = 12, day = 2\<rparr>
   \<and> month_intersects 9999 12 \<lparr>year = 9999, month = 12, day = 1\<rparr> \<lparr>year = 9999, month = 12, day = 2\<rparr>
   \<and> split_range_by_month \<lparr>year = 9999, month = 12, day = 1\<rparr> \<lparr>year = 9999, month = 12, day = 2\<rparr>
       = Inl ValueError"
    by code_simp
  then show ?thesis using month_str_last[of 1] by simp
qed

section \<open>Budget proration\<close>

text \<open>
  A budget row is the dictionary \<^verbatim>\<open>fetch_month_budget\<close> returns (or the one
  \<^verbatim>\<open>compute_insights\<close> is given): the \<^verbatim>\<open>budget_amount\<close> and \<^verbatim>\<open>amount\<close> keys and the
  home city. The lookup itself is a collaborator, a parameter \<open>fetch\<close> from user id and
  period string to a row or \<^verbatim>\<open>None\<close>.
\<close>

record budget_row =
  budget_amount :: pyval
  fallback_amount :: pyval
  home_city :: "string option"

definition py_round2 :: "real \<Rightarrow> real" where
  \<comment> \<open>\<^verbatim>\<open>round(x, 2)\<close>: to the nearest hundredth, a tie going to the even one\<close>
  "py_round2 x =
     (let t = x * 100; f = \<lfloor>t\<rfloor>; d = t - of_int f
      in of_int (if d < 1 / 2 then f else if d > 1 / 2 then f + 1
                 else if even f then f else f + 1) / 100)"

definition prorate_step ::
  "(string \<Rightarrow> real option) \<Rightarrow> (string \<Rightarrow> string \<Rightarrow> budget_row option) \<Rightarrow> string
     \<Rightarrow> date \<Rightarrow> date \<Rightarrow> real \<Rightarrow> string \<Rightarrow> error + real" where
  \<comment> \<open>one turn of the loop over the months: the new running total\<close>
  "prorate_step fl fetch user_id start end tot m =
     (case fetch user_id m of
        None \<Rightarrow> Inr tot
      | Some b \<Rightarrow>
          (case py_float fl (if truthy (budget_amount b) then budget_amount b else PNum 0) of
             Inl e \<Rightarrow> Inl e
           | Inr monthly_budget \<Rightarrow>
               if monthly_budget \<le> 0 then Inr tot
               else
                 (case month_bounds_utc m of
                    Inl e \<Rightarrow> Inl e
                  | Inr (ms_dt, me_dt) \<Rightarrow>
                      let ms = dt_date ms_dt;
                          me = dt_date me_dt;
                          overlap_start = date_max start ms;
                          overlap_end = date_min end me
                      in if date_le overlap_end overlap_start then Inr tot
                         else
                           let dim = date_diff_days me ms;
                               overlap_days = date_diff_days overlap_end overlap_start
                           in if dim \<le> 0 \<or> overlap_days \<le> 0 then Inr tot
                              else Inr (tot + (monthly_budget / of_int dim) * of_int overlap_days))))"

fun prorate_loop ::
  "(string \<Rightarrow> real option) \<Rightarrow> (string \<Rightarrow> string \<Rightarrow> budget_row option) \<Rightarrow> string
     \<Rightarrow> date \<Rightarrow> date \<Rightarrow> real \<Rightarrow> string list \<Rightarrow> error + real" where
  "prorate_loop fl fetch user_id start end tot [] = Inr tot"
| "prorate_loop fl fetch user_id start end tot (m # ms) =
     (case prorate_step fl fetch user_id start end tot m of
        Inl e \<Rightarrow> Inl e
      | Inr tot' \<Rightarrow> prorate_loop fl fetch user_id start end tot' ms)"

definition prorate_total ::
  "(string \<Rightarrow> real option) \<Rightarrow> (string \<Rightarrow> string \<Rightarrow> budget_row option) \<Rightarrow> string
     \<Rightarrow> date \<Rightarrow> date \<Rightarrow> error + real" where
  \<comment> \<open>the running total when the loop ends, before the final rounding\<close>
  "prorate_total fl fetch user_id start end =
     (if date_le end start then Inr 0
      else (case split_range_by_month start end of
              Inl e \<Rightarrow> Inl e
            | Inr months \<Rightarrow> prorate_loop fl fetch user_id start end 0 months))"

definition prorate_monthly_budget_for_range ::
  "(string \<Rightarrow> real option) \<Rightarrow> (string \<Rightarrow> string \<Rightarrow> budget_row option) \<Rightarrow> string
     \<Rightarrow> date \<Rightarrow> date \<Rightarrow> error + real" where
  "prorate_monthly_budget_for_range fl fetch user_id start end =
     (case prorate_total fl fetch user_id start end of
        Inl e \<Rightarrow> Inl e
      | Inr tot \<Rightarrow> Inr (py_round2 tot))"

subsection \<open>Additivity of the proration\<close>

lemma py_round2_error: "\<bar>py_round2 x - x\<bar> \<le> 1 / 200"
proof -
  define t where "t = x * 100"
  define f where "f = \<lfloor>t\<rfloor>"
  define d where "d = t - of_int f"
  have d0: "0 \<le> d" "d < 1" unfolding d_def f_def by linarith+
  have x: "x = t / 100" by (simp add: t_def)
  have r: "py_round2 x = of_int (if d < 1 / 2 then f else if d > 1 / 2 then f + 1
                 else if even f then f else f + 1) / 100"
    unfolding py_round2_def Let_def t_def[symmetric] f_def[symmetric] d_def[symmetric] ..
  have t: "t = of_int f + d" by (simp add: d_def)
  have "\<bar>of_int (if d < 1 / 2 then f else if d > 1 / 2 then f + 1
                 else if even f then f else f + 1) / 100 - (of_int f + d) / 100\<bar> \<le> 1 / 200"
    using d0 by (auto simp: abs_if field_simps)
  moreover have xe: "x = (of_int f + d) / 100" using x t by simp
  ultimately show ?thesis unfolding r by (subst xe)
qed

lemma py_round2_sum:
  assumes "w = x + y"
  shows "\<bar>py_round2 x + py_round2 y - py_round2 w\<bar> \<le> 3 / 200"
  using py_round2_error[of x] py_round2_error[of y] py_round2_error[of w] assms by linarith

lemma prorate_step_shift:
  "prorate_step fl fetch u s e tot m =
     (case prorate_step fl fetch u s e 0 m of Inl err \<Rightarrow> Inl err | Inr x \<Rightarrow> Inr (tot + x))"
  by (simp add: prorate_step_def Let_def split: option.splits sum.splits prod.splits)

lemma prorate_loop_shift:
  "prorate_loop fl fetch u s e tot ms =
     (case prorate_loop fl fetch u s e 0 ms of Inl err \<Rightarrow> Inl err | Inr x \<Rightarrow> Inr (tot + x))"
proof (induction ms arbitrary: tot)
  case Nil
  then show ?case by simp
next
  case (Cons m ms)
  show ?case
  proof (cases "prorate_step fl fetch u s e 0 m")
    case (Inl err)
    then show ?thesis by (simp add: prorate_step_shift[of fl fetch u s e tot])
  next
    case (Inr x)
    then show ?thesis
      using Cons.IH[of "tot + x"] Cons.IH[of x]
      by (simp add: prorate_step_shift[of fl fetch u s e tot] add.assoc split: sum.splits)
  qed
qed

lemma prorate_loop_append:
  "prorate_loop fl fetch u s e tot (xs @ ys) =
     (case prorate_loop fl fetch u s e tot xs of
        Inl err \<Rightarrow> Inl err
      | Inr t \<Rightarrow> prorate_loop fl fetch u s e t ys)"
  by (induction xs arbitrary: tot) (auto split: sum.splits)

lemma prorate_step_overlap_cong:
  assumes "month_bounds_utc m = Inr (a, b)"
    and "date_max s (dt_date a) = date_max s' (dt_date a)"
    and "date_min e (dt_date b) = date_min e' (dt_date b)"
  shows "prorate_step fl fetch u s e tot m = prorate_step fl fetch u s' e' tot m"
  using assms by (simp add: prorate_step_def Let_def split: option.splits sum.splits)

lemma prorate_loop_cong:
  assumes "\<And>m tot. m \<in> set ms \<Longrightarrow>
             prorate_step fl fetch u s e tot m = prorate_step fl fetch u s' e' tot m"
  shows "prorate_loop fl fetch u s e tot ms = prorate_loop fl fetch u s' e' tot ms"
  using assms by (induction ms arbitrary: tot) (simp_all split: sum.splits)

lemma next_month_index: "next_month (i div 12) (i mod 12 + 1) = index_date (i + 1)"
proof -
  obtain q r :: int where qr: "i = 12 * q + r" "0 \<le> r" "r < 12" "i div 12 = q" "i mod 12 = r"
    by (rule index_split)
  show ?thesis
  proof (cases "r = 11")
    case True
    have e: "i + 1 = 12 * (q + 1) + 0" using qr(1) True by simp
    show ?thesis using int_div_pos_eq[OF e] int_mod_pos_eq[OF e] True qr(4,5)
      by (simp add: next_month_def index_date_def)
  next
    case False
    have e: "i + 1 = 12 * q + (r + 1)" using qr(1) by simp
    have r1: "0 \<le> r + 1" "r + 1 < 12" using qr(2,3) False by linarith+
    show ?thesis using int_div_pos_eq[OF e r1] int_mod_pos_eq[OF e r1] False qr(4,5)
      by (simp add: next_month_def index_date_def)
  qed
qed

lemma month_bounds_utc_index:
  assumes "12 \<le> i" "i \<le> 119998"
  shows "month_bounds_utc (index_month_str i)
         = Inr (midnight_utc (index_date i), midnight_utc (index_date (i + 1)))"
proof -
  obtain q r :: int where qr: "i = 12 * q + r" "0 \<le> r" "r < 12" "i div 12 = q" "i mod 12 = r"
    by (rule index_split)
  have q1: "1 \<le> q" "q \<le> 9999" using assms qr(1,2,3) by linarith+
  have nl: "(q, r + 1) \<noteq> (9999, 12)" using assms qr(1) by auto
  have p: "parse_yyyy_mm (index_month_str i) = Inr (q, r + 1)"
    using parse_index_month_str[of i] assms(1) qr(4,5) by simp
  show ?thesis
    using month_bounds_utc_value[OF p q1 nl] next_month_index[of i] qr(4,5)
    by (simp add: index_date_def)
qed

lemma first_day_is_index_date:
  assumes "valid_date b" "day b = 1"
  shows "index_date (month_index b) = b"
proof -
  have "index_date (month_index b) = first_of_month (year b) (month b)"
    unfolding month_index_def using valid_date_bounds(1,2)[OF assms(1)] by (rule index_date_month_index)
  then show ?thesis using assms(2) by (simp add: first_of_month_def)
qed

lemma index_date_bounds:
  "1 \<le> month (index_date i)" "month (index_date i) \<le> 12"
  "1 \<le> day (index_date i)" "day (index_date i) \<le> 31"
  by (simp_all add: index_date_fields)

lemma date_less_index_dates: "date_less (index_date i) (index_date j) \<longleftrightarrow> i < j"
proof -
  have "date_less (index_date i) (index_date j) \<longleftrightarrow> 32 * i + 1 < 32 * j + 1"
    using date_less_key[OF index_date_bounds[of i] index_date_bounds[of j]]
    unfolding date_key_index_date .
  then show ?thesis by linarith
qed

lemma prorate_step_left:
  assumes "valid_date b" "day b = 1" "valid_date e" "date_less b e"
    and "12 \<le> i" "i < month_index b"
  shows "prorate_step fl fetch u s e tot (index_month_str i)
         = prorate_step fl fetch u s b tot (index_month_str i)"
proof -
  let ?me = "index_date (i + 1)"
  have b: "b = index_date (month_index b)" using first_day_is_index_date[OF assms(1,2)] by simp
  have i: "i \<le> 119998" using month_index_range(2)[OF assms(1)] assms(6) by linarith
  have kb: "date_key b = 32 * month_index b + 1" by (simp add: date_key_def assms(2))
  have "date_key ?me < date_key e"
    using valid_date_key[OF assms(1,3)] assms(4,6) kb by (simp add: date_key_index_date)
  then have 1: "date_less ?me e"
    using date_less_key[OF index_date_bounds[of "i + 1"] valid_date_bounds(1-4)[OF assms(3)]] by simp
  have 2: "date_min b ?me = ?me"
  proof (cases "i + 1 = month_index b")
    case True
    then show ?thesis using b by (simp add: date_min_def)
  next
    case False
    then have "i + 1 < month_index b" using assms(6) by linarith
    then have "date_less ?me (index_date (month_index b))" by (simp add: date_less_index_dates)
    then show ?thesis using b by (simp add: date_min_def)
  qed
  have "date_min e ?me = date_min b ?me" using 1 2 by (simp add: date_min_def)
  then show ?thesis
    using month_bounds_utc_index[OF assms(5) i]
    by (intro prorate_step_overlap_cong[where a = "midnight_utc (index_date i)" and b = "midnight_utc ?me"])
       (simp_all add: midnight_utc_def)
qed

lemma prorate_step_right:
  assumes "valid_date b" "day b = 1" "valid_date s" "date_less s b"
    and "month_index b \<le> i" "i \<le> 119998"
  shows "prorate_step fl fetch u s e tot (index_month_str i)
         = prorate_step fl fetch u b e tot (index_month_str i)"
proof -
  let ?ms = "index_date i"
  have b: "b = index_date (month_index b)" using first_day_is_index_date[OF assms(1,2)] by simp
  have i: "12 \<le> i" using month_index_range(1)[OF assms(1)] assms(5) by linarith
  have kb: "date_key b = 32 * month_index b + 1" by (simp add: date_key_def assms(2))
  have "date_key s < date_key ?ms"
    using valid_date_key[OF assms(3,1)] assms(4,5) kb by (simp add: date_key_index_date)
  then have 1: "date_less s ?ms"
    using date_less_key[OF valid_date_bounds(1-4)[OF assms(3)] index_date_bounds[of i]] by simp
  have 2: "date_max b ?ms = ?ms"
  proof (cases "i = month_index b")
    case True
    then show ?thesis using b by (simp add: date_max_def)
  next
    case False
    then have "month_index b < i" using assms(5) by linarith
    then have "date_less (index_date (month_index b)) ?ms" by (simp add: date_less_index_dates)
    then show ?thesis using b by (simp add: date_max_def)
  qed
  have "date_max s ?ms = date_max b ?ms" using 1 2 by (simp add: date_max_def)
  then show ?thesis
    using month_bounds_utc_index[OF i assms(6)]
    by (intro prorate_step_overlap_cong[where a = "midnight_utc ?ms" and b = "midnight_utc (index_date (i + 1))"])
       (simp_all add: midnight_utc_def)
qed

lemma date_less_trans_valid:
  assumes "valid_date a" "valid_date b" "valid_date c" "date_less a b" "date_less b c"
  shows "date_less a c"
  using assms(4,5) valid_date_key[OF assms(1,2)] valid_date_key[OF assms(2,3)]
    valid_date_key[OF assms(1,3)] by linarith

lemma date_less_le_trans_valid:
  assumes "valid_date a" "valid_date b" "valid_date c" "date_less a b" "date_le b c"
  shows "date_le a c"
  using assms date_less_trans_valid[OF assms(1,2,3)] by (auto simp: date_le_def)

lemma prorate_total_months:
  assumes "valid_date s" "valid_date e" "date_less s e" "date_le e last_start"
  shows "prorate_total fl fetch u s e
         = prorate_loop fl fetch u s e 0 (map index_month_str [month_index s..last_month_index e])"
  using split_range_by_month_value[OF assms] date_less_not_le[OF assms(3)]
  by (simp add: prorate_total_def)

lemma prorate_total_split:
  assumes "valid_date s" "valid_date b" "valid_date e"
    and "date_less s b" "date_less b e" "day b = 1" "date_le e last_start"
  shows "prorate_total fl fetch u s e =
           (case prorate_total fl fetch u s b of
              Inl err \<Rightarrow> Inl err
            | Inr x \<Rightarrow> (case prorate_total fl fetch u b e of
                         Inl err \<Rightarrow> Inl err
                       | Inr y \<Rightarrow> Inr (x + y)))"
proof -
  let ?is = "month_index s" and ?ib = "month_index b" and ?le = "last_month_index e"
  let ?A = "map index_month_str [?is..?ib - 1]" and ?B = "map index_month_str [?ib..?le]"
  have se: "date_less s e" using assms(1-5) by (rule date_less_trans_valid)
  have bl: "date_le b last_start"
    using assms(2,3) valid_last_start assms(5,7) by (rule date_less_le_trans_valid)
  have lb: "last_month_index b = ?ib - 1" using assms(6) by (simp add: last_month_index_def)
  have sb: "?is \<le> ?ib - 1" using start_index_le_last[OF assms(1,2,4)] lb by simp
  have be: "?ib \<le> ?le" using assms(2,3,5) by (rule start_index_le_last)
  have le: "?le \<le> 119998" using assms(3,7) by (rule last_index_in_range)
  have up: "[?is..?le] = [?is..?ib - 1] @ [?ib..?le]"
    using sb be by (intro upto_split1) linarith+
  have whole: "prorate_total fl fetch u s e = prorate_loop fl fetch u s e 0 (?A @ ?B)"
    using prorate_total_months[OF assms(1,3) se assms(7)] up by simp
  have left: "prorate_total fl fetch u s b = prorate_loop fl fetch u s b 0 ?A"
    using prorate_total_months[OF assms(1,2,4) bl] lb by simp
  have right: "prorate_total fl fetch u b e = prorate_loop fl fetch u b e 0 ?B"
    using assms(2,3,5,7) by (rule prorate_total_months)
  have cl: "prorate_loop fl fetch u s e t ?A = prorate_loop fl fetch u s b t ?A" for t
  proof (rule prorate_loop_cong)
    fix m tot assume "m \<in> set ?A"
    then obtain i where i: "m = index_month_str i" "?is \<le> i" "i \<le> ?ib - 1" by auto
    have "12 \<le> i" "i < ?ib" using i month_index_range(1)[OF assms(1)] by linarith+
    then show "prorate_step fl fetch u s e tot m = prorate_step fl fetch u s b tot m"
      unfolding i(1) using assms(2,6,3,5) by (intro prorate_step_left)
  qed
  have cr: "prorate_loop fl fetch u s e t ?B = prorate_loop fl fetch u b e t ?B" for t
  proof (rule prorate_loop_cong)
    fix m tot assume "m \<in> set ?B"
    then obtain i where i: "m = index_month_str i" "?ib \<le> i" "i \<le> ?le" by auto
    have "i \<le> 119998" using i le by linarith
    then show "prorate_step fl fetch u s e tot m = prorate_step fl fetch u b e tot m"
      unfolding i(1) using assms(2,6,1,4) i(2) by (intro prorate_step_right)
  qed
  have "prorate_total fl fetch u s e =
          (case prorate_loop fl fetch u s e 0 ?A of
             Inl err \<Rightarrow> Inl err
           | Inr t \<Rightarrow> prorate_loop fl fetch u s e t ?B)"
    by (simp only: whole prorate_loop_append)
  also have "\<dots> = (case prorate_loop fl fetch u s b 0 ?A of
             Inl err \<Rightarrow> Inl err
           | Inr t \<Rightarrow> prorate_loop fl fetch u b e t ?B)"
    by (simp only: cl cr)
  also have "\<dots> = (case prorate_loop fl fetch u s b 0 ?A of
             Inl err \<Rightarrow> Inl err
           | Inr x \<Rightarrow> (case prorate_loop fl fetch u b e 0 ?B of
                         Inl err \<Rightarrow> Inl err
                       | Inr y \<Rightarrow> Inr (x + y)))"
  proof (cases "prorate_loop fl fetch u s b 0 ?A")
    case (Inl err)
    then show ?thesis by simp
  next
    case (Inr x)
    then show ?thesis using prorate_loop_shift[of fl fetch u b e x ?B] by simp
  qed
  finally show ?thesis by (simp only: left right)
qed

lemma prorate_total_overflow:
  assumes "valid_date s" "valid_date e" "date_less s e" "date_less last_start e"
  shows "prorate_total fl fetch u s e = Inl ValueError"
  using split_range_by_month_overflow[OF assms] date_less_not_le[OF assms(3)]
  by (simp add: prorate_total_def)

lemma prorate_additive_or_raises:
  assumes "valid_date s" "valid_date b" "valid_date e"
    and "date_less s b" "date_less b e" "day b = 1"
  shows "(\<exists>x y. prorate_total fl fetch u s b = Inr x \<and> prorate_total fl fetch u b e = Inr y
              \<and> prorate_total fl fetch u s e = Inr (x + y))
       \<or> ((\<exists>err. prorate_total fl fetch u s e = Inl err)
          \<and> ((\<exists>err. prorate_total fl fetch u s b = Inl err)
             \<or> (\<exists>err. prorate_total fl fetch u b e = Inl err)))"
proof (cases "date_le e last_start")
  case True
  note sp = prorate_total_split[OF assms True, of fl fetch u]
  show ?thesis
  proof (cases "prorate_total fl fetch u s b")
    case (Inl err)
    then show ?thesis using sp by simp
  next
    case x: (Inr x)
    show ?thesis
    proof (cases "prorate_total fl fetch u b e")
      case (Inl err)
      then show ?thesis using sp x by simp
    next
      case y: (Inr y)
      then show ?thesis using sp x by simp
    qed
  qed
next
  case False
  then have l: "date_less last_start e" by (rule date_not_le_less)
  have se: "date_less s e" using assms(1-5) by (rule date_less_trans_valid)
  have "prorate_total fl fetch u s e = Inl ValueError"
    using assms(1,3) se l by (rule prorate_total_overflow)
  moreover have "prorate_total fl fetch u b e = Inl ValueError"
    using assms(2,3,5) l by (rule prorate_total_overflow)
  ultimately show ?thesis by simp
qed

text \<open>
  The lookup returns rows whose budget amount \<^verbatim>\<open>float\<close> accepts: a number, or a value
  that is false in a condition (\<^verbatim>\<open>None\<close>, zero, the empty string).
\<close>

definition numeric_budgets ::
  "(string \<Rightarrow> real option) \<Rightarrow> (string \<Rightarrow> string \<Rightarrow> budget_row option) \<Rightarrow> string \<Rightarrow> bool" where
  "numeric_budgets fl fetch u =
     (\<forall>m row. fetch u m = Some row \<longrightarrow>
        (\<exists>v. py_float fl (if truthy (budget_amount row) then budget_amount row else PNum 0) = Inr v))"

lemma prorate_step_returns:
  assumes "numeric_budgets fl fetch u" "12 \<le> i" "i \<le> 119998"
  shows "\<exists>t. prorate_step fl fetch u s e tot (index_month_str i) = Inr t"
proof (cases "fetch u (index_month_str i)")
  case None
  then show ?thesis by (simp add: prorate_step_def)
next
  case (Some row)
  then obtain v where
    "py_float fl (if truthy (budget_amount row) then budget_amount row else PNum 0) = Inr v"
    using assms(1) unfolding numeric_budgets_def by blast
  then show ?thesis using Some month_bounds_utc_index[OF assms(2,3)]
    by (simp add: prorate_step_def Let_def)
qed

lemma prorate_loop_returns:
  assumes "numeric_budgets fl fetch u" "\<forall>i\<in>set is. 12 \<le> i \<and> i \<le> 119998"
  shows "\<exists>t. prorate_loop fl fetch u s e tot (map index_month_str is) = Inr t"
  using assms(2)
proof (induction "is" arbitrary: tot)
  case Nil
  then show ?case by simp
next
  case (Cons i "is")
  then obtain t where "prorate_step fl fetch u s e tot (index_month_str i) = Inr t"
    using prorate_step_returns[OF assms(1), of i s e tot] by auto
  then show ?case using Cons.IH[of t] Cons.prems by simp
qed

lemma prorate_total_returns:
  assumes "numeric_budgets fl fetch u" "valid_date s" "valid_date e" "date_le e last_start"
  shows "\<exists>t. prorate_total fl fetch u s e = Inr t"
proof (cases "date_le e s")
  case True
  then show ?thesis by (simp add: prorate_total_def)
next
  case False
  then have se: "date_less s e" by (rule date_not_le_less)
  have "\<forall>i\<in>set [month_index s..last_month_index e]. 12 \<le> i \<and> i \<le> 119998"
    using month_index_range(1)[OF assms(2)] last_index_in_range[OF assms(3,4)] by auto
  then show ?thesis
    unfolding prorate_total_months[OF assms(2,3) se assms(4)]
    by (rule prorate_loop_returns[OF assms(1)])
qed

text \<open>
  Additivity over exact reals, away from the end of the calendar. Let \<open>b\<close> be the
  first day of a month strictly between \<open>start\<close> and \<open>end\<close>, let \<open>end\<close> be no later than
  1 December 9999, and let the lookup return rows with numeric budget amounts. Then all
  three prorations return and, with sums, quotients and the final rounding computed
  exactly, the running total of the whole range is the sum of the running totals of the
  two parts and the two parts' results add up to the whole's within three half
  hundredths. The rounding error of the code's binary floating point is not part of
  this statement.
\<close>

lemma prorate_additive:
  assumes "valid_date s" "valid_date b" "valid_date e"
    and "date_less s b" "date_less b e" "day b = 1"
    and "date_le e last_start" "numeric_budgets fl fetch u"
  shows "\<exists>x y. prorate_total fl fetch u s b = Inr x \<and> prorate_total fl fetch u b e = Inr y
              \<and> prorate_total fl fetch u s e = Inr (x + y)
              \<and> prorate_monthly_budget_for_range fl fetch u s b = Inr (py_round2 x)
              \<and> prorate_monthly_budget_for_range fl fetch u b e = Inr (py_round2 y)
              \<and> prorate_monthly_budget_for_range fl fetch u s e = Inr (py_round2 (x + y))
              \<and> \<bar>py_round2 x + py_round2 y - py_round2 (x + y)\<bar> \<le> 3 / 200"
proof -
  have bl: "date_le b last_start"
    using assms(2,3) valid_last_start assms(5,7) by (rule date_less_le_trans_valid)
  obtain x where x: "prorate_total fl fetch u s b = Inr x"
    using prorate_total_returns[OF assms(8,1,2) bl] by blast
  obtain y where y: "prorate_total fl fetch u b e = Inr y"
    using prorate_total_returns[OF assms(8,2,3,7)] by blast
  have w: "prorate_total fl fetch u s e = Inr (x + y)"
    using prorate_total_split[OF assms(1-7), of fl fetch u] x y by simp
  have "\<bar>py_round2 x + py_round2 y - py_round2 (x + y)\<bar> \<le> 3 / 200"
    by (rule py_round2_sum) simp
  then show ?thesis using x y w by (simp add: prorate_monthly_budget_for_range_def)
qed

text \<open>A budget lookup with two months on record, for the concrete example.\<close>

definition demo_fetch :: "string \<Rightarrow> string \<Rightarrow> budget_row option" where
  "demo_fetch u m =
     (if m = ''2024-01''
      then Some \<lparr>budget_amount = PNum 1000, fallback_amount = PNone, home_city = None\<rparr>
      else if m = ''2024-02''
      then Some \<lparr>budget_amount = PNum 1000, fallback_amount = PNone, home_city = None\<rparr>
      else None)"

lemma prorate_additive_example:
  "prorate_monthly_budget_for_range (\<lambda>t. None) demo_fetch ''u''
       \<lparr>year = 2024, month = 1, day = 21\<rparr> \<lparr>year = 2024, month = 2, day = 1\<rparr> = Inr (35484 / 100)
   \<and> prorate_monthly_budget_for_range (\<lambda>t. None) demo_fetch ''u''
       \<lparr>year = 2024, month = 2, day = 1\<rparr> \<lparr>year = 2024, month = 2, day = 11\<rparr> = Inr (34483 / 100)
   \<and> prorate_total (\<lambda>t. None) demo_fetch ''u''
       \<lparr>year = 2024, month = 1, day = 21\<rparr> \<lparr>year = 2024, month = 2, day = 11\<rparr>
       = Inr (11000 / 31 + 10000 / 29)
   \<and> prorate_monthly_budget_for_range (\<lambda>t. None) demo_fetch ''u''
       \<lparr>year = 2024, month = 1, day = 21\<rparr> \<lparr>year = 2024, month = 2, day = 11\<rparr>
       = Inr (py_round2 (11000 / 31 + 10000 / 29))"
proof -
  let ?fl = "\<lambda>t::string. None :: real option"
  let ?s = "\<lparr>year = 2024, month = 1, day = 21\<rparr>"
  let ?b = "\<lparr>year = 2024, month = 2, day = 1\<rparr>"
  let ?e = "\<lparr>year = 2024, month = 2, day = 11\<rparr>"
  have v: "valid_date ?s" "valid_date ?b" "valid_date ?e" by code_simp+
  have l: "date_less ?s ?b" "date_less ?b ?e" "day ?b = 1" by code_simp+
  have x: "prorate_total ?fl demo_fetch ''u'' ?s ?b = Inr (11000 / 31)" by code_simp
  have y: "prorate_total ?fl demo_fetch ''u'' ?b ?e = Inr (10000 / 29)" by code_simp
  have rx: "py_round2 (11000 / 31) = 35484 / 100" by code_simp
  have ry: "py_round2 (10000 / 29) = 34483 / 100" by code_simp
  have le: "date_le ?e last_start" by code_simp
  have row: "budget_amount r = PNum 1000" if "demo_fetch ''u'' m = Some r" for m r
  proof (cases "m = ''2024-01''")
    case True
    then show ?thesis using that by (auto simp: demo_fetch_def)
  next
    case False
    then show ?thesis using that by (cases "m = ''2024-02''") (auto simp: demo_fetch_def)
  qed
  have nb: "numeric_budgets ?fl demo_fetch ''u''"
    unfolding numeric_budgets_def by (auto simp: row py_float_def truthy_def)
  from prorate_additive[OF v l le nb]
  obtain x' y' where a: "prorate_total ?fl demo_fetch ''u'' ?s ?b = Inr x'"
      "prorate_total ?fl demo_fetch ''u'' ?b ?e = Inr y'"
      "prorate_total ?fl demo_fetch ''u'' ?s ?e = Inr (x' + y')"
      "prorate_monthly_budget_for_range ?fl demo_fetch ''u'' ?s ?b = Inr (py_round2 x')"
      "prorate_monthly_budget_for_range ?fl demo_fetch ''u'' ?b ?e = Inr (py_round2 y')"
      "prorate_monthly_budget_for_range ?fl demo_fetch ''u'' ?s ?e = Inr (py_round2 (x' + y'))"
    by blast
  have xe: "x' = 11000 / 31" and ye: "y' = 10000 / 29" using a(1,2) x y by simp_all
  from a(3-6)[unfolded xe ye rx ry] show ?thesis by blast
qed

lemma prorate_loop_no_rows: "prorate_loop fl (\<lambda>u m. None) u s e tot ms = Inr tot"
  by (induction ms) (simp_all add: prorate_step_def)

lemma py_round2_zero: "py_round2 0 = 0"
  by (simp add: py_round2_def)

text \<open>
  C4. The claim asks that prorating the two parts of a range split at a month boundary
  adds up to prorating the whole range. For the range from 15 November to 15 December
  9999, split at 1 December, whatever the lookup returns, the proration of the second
  part and of the whole range raise \<^verbatim>\<open>ValueError\<close>: both start by listing the months of
  their range, and \<open>split_range_by_month\<close> raises on a range that reaches into
  December 9999. The first part is prorated (to 0 when there is no budget on record),
  so there is no sum to compare it with.
\<close>

theorem prorate_raises_in_last_month:
  "prorate_monthly_budget_for_range fl fetch u
       \<lparr>year = 9999, month = 12, day = 1\<rparr> \<lparr>year = 9999, month = 12, day = 15\<rparr> = Inl ValueError
   \<and> prorate_monthly_budget_for_range fl fetch u
       \<lparr>year = 9999, month = 11, day = 15\<rparr> \<lparr>year = 9999, month = 12, day = 15\<rparr> = Inl ValueError
   \<and> prorate_monthly_budget_for_range fl (\<lambda>u m. None) u
       \<lparr>year = 9999, month = 11, day = 15\<rparr> \<lparr>year = 9999, month = 12, day = 1\<rparr> = Inr 0"
proof -
  let ?s = "\<lparr>year = 9999, month = 11, day = 15\<rparr>"
  let ?b = "\<lparr>year = 9999, month = 12, day = 1\<rparr>"
  let ?e = "\<lparr>year = 9999, month = 12, day = 15\<rparr>"
  have v: "valid_date ?s" "valid_date ?b" "valid_date ?e" by code_simp+
  have l: "date_less ?s ?b" "date_less ?b ?e" "date_less ?s ?e" by code_simp+
  have bl: "date_le ?b last_start" "date_less last_start ?e" by code_simp+
  have 1: "prorate_total fl (\<lambda>u m. None) u ?s ?b = Inr 0"
    unfolding prorate_total_months[OF v(1,2) l(1) bl(1)] by (rule prorate_loop_no_rows)
  have 2: "prorate_total fl fetch u ?b ?e = Inl ValueError"
    using v(2,3) l(2) bl(2) by (rule prorate_total_overflow)
  have 3: "prorate_total fl fetch u ?s ?e = Inl ValueError"
    using v(1,3) l(3) bl(2) by (rule prorate_total_overflow)
  show ?thesis
    by (simp add: prorate_monthly_budget_for_range_def 1 2 3 py_round2_zero)
qed

section \<open>The insight engine\<close>

text \<open>
  The library calls of the timestamp handling are parameters, grouped in a record:
  \<^verbatim>\<open>float\<close> on a string, \<^verbatim>\<open>datetime.fromisoformat\<close> (\<open>None\<close> where it raises) and the
  day key \<^verbatim>\<open>dt.astimezone(timezone.utc).date().isoformat()\<close>, which raises
  \<^verbatim>\<open>OverflowError\<close> when the shifted instant leaves the range of \<^verbatim>\<open>datetime\<close>. The type
  \<open>'dt\<close> is that of \<^verbatim>\<open>datetime\<close> objects with any time zone.
\<close>

record 'dt library =
  float_of_str :: "string \<Rightarrow> real option"
  fromisoformat :: "string \<Rightarrow> 'dt option"
  day_key :: "'dt \<Rightarrow> error + string"

definition replace_Z :: "string \<Rightarrow> string" where
  \<comment> \<open>\<^verbatim>\<open>s.replace("Z", "+00:00")\<close>\<close>
  "replace_Z s = concat (map (\<lambda>c. if c = CHR ''Z'' then ''+00:00'' else [c]) s)"

definition parse_ts :: "'dt library \<Rightarrow> 'dt created \<Rightarrow> 'dt option" where
  "parse_ts lib ts =
     (case ts of
        CNone \<Rightarrow> None
      | CDatetime d \<Rightarrow> Some d
      | CStr s \<Rightarrow> fromisoformat lib (replace_Z s))"

text \<open>
  The two \<^verbatim>\<open>defaultdict(float)\<close> dictionaries are association lists in insertion order
  (the order \<^verbatim>\<open>sorted\<close> breaks ties by); \<open>dict_add\<close> is \<^verbatim>\<open>d[k] += v\<close> and \<open>dict_get\<close> is
  \<^verbatim>\<open>d.get(k, 0.0)\<close>.
\<close>

fun dict_add :: "string \<Rightarrow> real \<Rightarrow> (string \<times> real) list \<Rightarrow> (string \<times> real) list" where
  "dict_add k v [] = [(k, 0 + v)]"
| "dict_add k v ((k', x) # rest) =
     (if k = k' then (k', x + v) # rest else (k', x) # dict_add k v rest)"

definition dict_get :: "(string \<times> real) list \<Rightarrow> string \<Rightarrow> real" where
  "dict_get d k = (case map_of d k of None \<Rightarrow> 0 | Some v \<Rightarrow> v)"

record insight_state =
  spent :: real
  totals_by_cat :: "(string \<times> real) list"
  daily_totals :: "(string \<times> real) list"
  discretionary :: real
  restaurant_food :: real

definition initial_state :: insight_state where
  "initial_state = \<lparr>spent = 0, totals_by_cat = [], daily_totals = [], discretionary = 0,
                     restaurant_food = 0\<rparr>"

definition EXCLUDE_CATS :: "string list" where
  "EXCLUDE_CATS = [''funds_transfer'']"

definition insights_step :: "'dt library \<Rightarrow> insight_state \<Rightarrow> 'dt entry \<Rightarrow> error + insight_state" where
  \<comment> \<open>the body of the loop over the entries\<close>
  "insights_step lib s e =
     (let amt = to_float (float_of_str lib) (amount e) in
      if amt \<le> 0 then Inr s
      else
        let catn = normalize_category e in
        if catn \<in> set EXCLUDE_CATS then Inr s
        else
          let s1 = s\<lparr>spent := spent s + amt,
                     totals_by_cat := dict_add catn amt (totals_by_cat s)\<rparr> in
          (case (case parse_ts lib (created_at e) of
                   None \<Rightarrow> Inr s1
                 | Some dt \<Rightarrow>
                     (case day_key lib dt of
                        Inl err \<Rightarrow> Inl err
                      | Inr k \<Rightarrow> Inr (s1\<lparr>daily_totals := dict_add k amt (daily_totals s1)\<rparr>))) of
             Inl err \<Rightarrow> Inl err
           | Inr s2 \<Rightarrow>
               let s3 = (if catn \<in> set DISCRETIONARY_BASE
                         then s2\<lparr>discretionary := discretionary s2 + amt\<rparr> else s2)
               in Inr (if catn = ''food''
                       then (if fst (classify_food_unnecessary (float_of_str lib) e)
                             then s3\<lparr>restaurant_food := restaurant_food s3 + amt,
                                    discretionary := discretionary s3 + amt\<rparr>
                             else s3)
                       else s3)))"

fun insights_loop :: "'dt library \<Rightarrow> insight_state \<Rightarrow> 'dt entry list \<Rightarrow> error + insight_state" where
  "insights_loop lib s [] = Inr s"
| "insights_loop lib s (e # es) =
     (case insights_step lib s e of
        Inl err \<Rightarrow> Inl err
      | Inr s' \<Rightarrow> insights_loop lib s' es)"

subsection \<open>Formatting the amount over budget\<close>

definition round_half_even :: "real \<Rightarrow> int" where
  "round_half_even x =
     (let f = \<lfloor>x\<rfloor>; d = x - of_int f
      in if d < 1 / 2 then f else if d > 1 / 2 then f + 1 else if even f then f else f + 1)"

definition pad3 :: "nat \<Rightarrow> string" where
  "pad3 n = (if n < 10 then ''00'' @ nat_digits n
             else if n < 100 then ''0'' @ nat_digits n else nat_digits n)"

function thousands :: "nat \<Rightarrow> string" where
  "thousands n = (if n < 1000 then nat_digits n
                  else thousands (n div 1000) @ '','' @ pad3 (n mod 1000))"
  by pat_completeness auto
termination
  by (relation "measure id") auto

declare thousands.simps [simp del]

definition fmt_comma0 :: "real \<Rightarrow> string" where
  \<comment> \<open>\<^verbatim>\<open>f"{x:,.0f}"\<close>\<close>
  "fmt_comma0 x =
     (let n = round_half_even x
      in if x < 0 then CHR ''-'' # thousands (nat (- n)) else thousands (nat n))"

subsection \<open>The result\<close>

record insights =
  period :: string
  period_key :: "string option"
  city :: "string option"
  budget :: real
  spent_total :: real
  remaining :: real
  totals_by_category :: "(string \<times> real) list"
  top_categories :: "(string \<times> real) list"
  discretionary_total :: real
  restaurant_food_total :: real
  warnings :: "string list"
  actions :: "string list"

definition spike_detected :: "(string \<times> real) list \<Rightarrow> bool" where
  "spike_detected daily =
     (daily \<noteq> [] \<and>
      (let vals = map snd daily;
           avg_day = sum_list vals / of_nat (max 1 (length vals));
           max_day = Max (set vals)
       in avg_day > 0 \<and> max_day \<ge> avg_day * 2.5 \<and> max_day \<ge> 5000))"

definition compute_warnings :: "real \<Rightarrow> insight_state \<Rightarrow> string list" where
  "compute_warnings budget_amt s =
     (let w1 = (if budget_amt > 0 \<and> spent s > budget_amt then [''OVER_BUDGET''] else []);
          rent = dict_get (totals_by_cat s) ''rent'';
          w2 = (if budget_amt > 0 \<and> rent / budget_amt \<ge> 0.45 then w1 @ [''RENT_HIGH''] else w1);
          w3 = (if spent s > 0 \<and> discretionary s / spent s \<ge> 0.35 \<and> discretionary s \<ge> 10000
                then w2 @ [''DISCRETIONARY_HIGH''] else w2);
          w4 = (if spent s > 0 \<and> restaurant_food s / spent s \<ge> 0.15 \<and> restaurant_food s \<ge> 8000
                then w3 @ [''RESTAURANT_FOOD_HIGH''] else w3)
      in if spike_detected (daily_totals s) then w4 @ [''SPIKE_DETECTED''] else w4)"

definition compute_actions :: "real \<Rightarrow> insight_state \<Rightarrow> string list \<Rightarrow> string list" where
  "compute_actions budget_amt s ws =
     (let a1 = (if ''OVER_BUDGET'' \<in> set ws \<and> budget_amt > 0
                then [''You are over budget by Rs. '' @ fmt_comma0 (spent s - budget_amt)
                        @ ''. Cut discretionary categories first.'']
                else []);
          a2 = (if ''RENT_HIGH'' \<in> set ws \<and> budget_amt > 0
                then a1 @ [''Rent is taking a very large share of your budget. Consider negotiating rent, sharing accommodation, or relocating.'']
                else a1);
          a3 = (if ''DISCRETIONARY_HIGH'' \<in> set ws
                then a2 @ [''Discretionary spending is high. Set a weekly cap and review non-essential transactions.'']
                else a2);
          a4 = (if ''RESTAURANT_FOOD_HIGH'' \<in> set ws
                then a3 @ [''Restaurant/delivery food is high. Reduce dine-out frequency or switch to home meals for savings.'']
                else a3)
      in if ''SPIKE_DETECTED'' \<in> set ws
         then a4 @ [''A spending spike was detected on one day. Review that day's transactions and tag the cause (shopping, dining, bills, etc.).'']
         else a4)"

definition compute_insights ::
  "'dt library \<Rightarrow> 'dt entry list \<Rightarrow> budget_row \<Rightarrow> string \<Rightarrow> string option \<Rightarrow> error + insights" where
  "compute_insights lib entries row per per_key =
     (let budget_amt = to_float (float_of_str lib)
            (if truthy (budget_amount row) then budget_amount row else fallback_amount row);
          hc = py_strip (or_empty (home_city row))
      in case insights_loop lib initial_state entries of
           Inl err \<Rightarrow> Inl err
         | Inr s \<Rightarrow>
             let top = sort_key (\<lambda>kv. - snd kv) (totals_by_cat s);
                 top5 = map (\<lambda>(k, v). (k, py_round2 v)) (take 5 top);
                 ws = compute_warnings budget_amt s
             in Inr \<lparr>period = per,
                      period_key = per_key,
                      city = (if hc \<noteq> [] then Some hc else None),
                      budget = py_round2 budget_amt,
                      spent_total = py_round2 (spent s),
                      remaining = py_round2 (if budget_amt > 0 then budget_amt - spent s else 0),
                      totals_by_category = map (\<lambda>(k, v). (k, py_round2 v)) (totals_by_cat s),
                      top_categories = top5,
                      discretionary_total = py_round2 (discretionary s),
                      restaurant_food_total = py_round2 (restaurant_food s),
                      warnings = ws,
                      actions = compute_actions budget_amt s ws\<rparr>)"

subsection \<open>What the loop accumulates\<close>

text \<open>
  The quantities of the specification, read off the entries: the amount of an entry,
  whether it is counted (positive amount, category outside the exclusion set), whether
  it is discretionary by category, whether it is restaurant food, and the UTC day it is
  filed under, if any.
\<close>

definition amt_of :: "'dt library \<Rightarrow> 'dt entry \<Rightarrow> real" where
  "amt_of lib e = to_float (float_of_str lib) (amount e)"

definition counted :: "'dt library \<Rightarrow> 'dt entry \<Rightarrow> bool" where
  "counted lib e = (0 < amt_of lib e \<and> normalize_category e \<notin> set EXCLUDE_CATS)"

definition excluded :: "'dt library \<Rightarrow> 'dt entry \<Rightarrow> bool" where
  "excluded lib e = (0 < amt_of lib e \<and> normalize_category e \<in> set EXCLUDE_CATS)"

definition is_discretionary :: "'dt entry \<Rightarrow> bool" where
  "is_discretionary e = (normalize_category e \<in> set DISCRETIONARY_BASE)"

definition is_restaurant :: "'dt library \<Rightarrow> 'dt entry \<Rightarrow> bool" where
  "is_restaurant lib e =
     (normalize_category e = ''food'' \<and> fst (classify_food_unnecessary (float_of_str lib) e))"

definition day_of :: "'dt library \<Rightarrow> 'dt entry \<Rightarrow> string option" where
  "day_of lib e =
     (case parse_ts lib (created_at e) of
        None \<Rightarrow> None
      | Some dt \<Rightarrow> (case day_key lib dt of Inl err \<Rightarrow> None | Inr k \<Rightarrow> Some k))"

definition total_of :: "'dt library \<Rightarrow> ('dt entry \<Rightarrow> bool) \<Rightarrow> 'dt entry list \<Rightarrow> real" where
  \<comment> \<open>the summed amounts of the counted entries that satisfy \<open>P\<close>\<close>
  "total_of lib P es = sum_list (map (amt_of lib) (filter (\<lambda>e. counted lib e \<and> P e) es))"

definition whole_hundredths :: "real \<Rightarrow> bool" where
  "whole_hundredths x = (of_int \<lfloor>x * 100\<rfloor> = x * 100)"

lemma whole_hundredths_iff: "whole_hundredths x \<longleftrightarrow> (\<exists>n::int. x * 100 = of_int n)"
  unfolding whole_hundredths_def by (metis floor_of_int)

lemma dict_add_sum: "sum_list (map snd (dict_add k v d)) = sum_list (map snd d) + v"
  by (induction k v d rule: dict_add.induct) auto

lemma dict_get_dict_add:
  "dict_get (dict_add k v d) c = dict_get d c + (if c = k then v else 0)"
  by (induction k v d rule: dict_add.induct) (auto simp: dict_get_def)



lemma dict_add_values:
  assumes "P (0 + v)" "\<forall>x\<in>set (map snd d). P x" "\<And>x. P x \<Longrightarrow> P (x + v)"
  shows "\<forall>x\<in>set (map snd (dict_add k v d)). P x"
  using assms(2)
proof (induction d)
  case Nil
  then show ?case using assms(1) by simp
next
  case (Cons p d)
  obtain k' x where p: "p = (k', x)" by (cases p)
  show ?case using Cons assms(3)[of x] unfolding p by auto
qed

lemma whole_hundredths_add:
  assumes "whole_hundredths a" "whole_hundredths b"
  shows "whole_hundredths (a + b)"
proof -
  obtain n m :: int where "a * 100 = of_int n" "b * 100 = of_int m"
    using assms unfolding whole_hundredths_iff by blast
  then have "(a + b) * 100 = of_int (n + m)" by (simp add: algebra_simps)
  then show ?thesis unfolding whole_hundredths_iff by blast
qed

lemma whole_hundredths_zero: "whole_hundredths 0"
  by (simp add: whole_hundredths_def)

lemma py_round2_whole:
  assumes "whole_hundredths x"
  shows "py_round2 x = x"
proof -
  obtain n :: int where n: "x * 100 = of_int n"
    using assms unfolding whole_hundredths_iff by blast
  have "py_round2 x = of_int n / 100"
    unfolding py_round2_def n by (simp add: Let_def)
  then show ?thesis using n by simp
qed

lemma whole_hundredths_sum_list:
  "\<forall>x\<in>set xs. whole_hundredths x \<Longrightarrow> whole_hundredths (sum_list xs)"
  by (induction xs) (auto simp: whole_hundredths_zero whole_hundredths_add)

lemma insights_step_skipped: "\<not> counted lib e \<Longrightarrow> insights_step lib s e = Inr s"
  by (auto simp: insights_step_def counted_def amt_of_def Let_def)

lemma insights_step_counted:
  assumes "counted lib e" "insights_step lib s e = Inr s'"
  shows "spent s' = spent s + amt_of lib e"
    and "totals_by_cat s' = dict_add (normalize_category e) (amt_of lib e) (totals_by_cat s)"
    and "discretionary s' = discretionary s + (if is_discretionary e then amt_of lib e else 0)
                              + (if is_restaurant lib e then amt_of lib e else 0)"
    and "restaurant_food s' = restaurant_food s + (if is_restaurant lib e then amt_of lib e else 0)"
    and "daily_totals s' = (case day_of lib e of None \<Rightarrow> daily_totals s
                            | Some k \<Rightarrow> dict_add k (amt_of lib e) (daily_totals s))"
    and "parse_ts lib (created_at e) = None \<or> day_of lib e \<noteq> None"
  using assms
  by (auto simp: insights_step_def counted_def amt_of_def is_discretionary_def is_restaurant_def
      day_of_def Let_def split: option.splits sum.splits if_splits)

lemma insights_step_returns:
  assumes "parse_ts lib (created_at e) = None \<or> day_of lib e \<noteq> None"
  shows "\<exists>s'. insights_step lib s e = Inr s'"
  using assms
  by (auto simp: insights_step_def day_of_def Let_def split: option.splits sum.splits)

lemma insights_loop_append:
  "insights_loop lib s (xs @ ys) =
     (case insights_loop lib s xs of Inl err \<Rightarrow> Inl err | Inr s' \<Rightarrow> insights_loop lib s' ys)"
  by (induction xs arbitrary: s) (auto split: sum.splits)

lemma total_of_Cons:
  "total_of lib P (e # es) = (if counted lib e \<and> P e then amt_of lib e else 0) + total_of lib P es"
  by (simp add: total_of_def)

lemma insights_loop_sums:
  assumes "insights_loop lib s es = Inr s'"
  shows "spent s' = spent s + total_of lib (\<lambda>e. True) es"
    and "sum_list (map snd (totals_by_cat s')) = sum_list (map snd (totals_by_cat s)) + total_of lib (\<lambda>e. True) es"
    and "dict_get (totals_by_cat s') c = dict_get (totals_by_cat s) c + total_of lib (\<lambda>e. normalize_category e = c) es"
    and "discretionary s' = discretionary s + total_of lib is_discretionary es + total_of lib (is_restaurant lib) es"
    and "restaurant_food s' = restaurant_food s + total_of lib (is_restaurant lib) es"
    and "dict_get (daily_totals s') k = dict_get (daily_totals s) k + total_of lib (\<lambda>e. day_of lib e = Some k) es"
  using assms
proof (induction es arbitrary: s)
  case Nil
  { case 1 then show ?case by (simp add: total_of_def) }
  { case 2 then show ?case by (simp add: total_of_def) }
  { case 3 then show ?case by (simp add: total_of_def) }
  { case 4 then show ?case by (simp add: total_of_def) }
  { case 5 then show ?case by (simp add: total_of_def) }
  { case 6 then show ?case by (simp add: total_of_def) }
next
  case (Cons e es)
  { case 1
    then obtain t where t: "insights_step lib s e = Inr t" "insights_loop lib t es = Inr s'"
      by (auto split: sum.splits)
    show ?case
    proof (cases "counted lib e")
      case True
      then show ?thesis using Cons.IH(1)[OF t(2)] insights_step_counted(1)[OF True t(1)]
        by (simp add: total_of_Cons)
    next
      case False
      then show ?thesis using Cons.IH(1)[OF t(2)] t(1) insights_step_skipped[OF False, of s]
        by (simp add: total_of_Cons)
    qed }
  { case 2
    then obtain t where t: "insights_step lib s e = Inr t" "insights_loop lib t es = Inr s'"
      by (auto split: sum.splits)
    show ?case
    proof (cases "counted lib e")
      case True
      then show ?thesis using Cons.IH(2)[OF t(2)] insights_step_counted(2)[OF True t(1)]
        by (simp add: total_of_Cons dict_add_sum)
    next
      case False
      then show ?thesis using Cons.IH(2)[OF t(2)] t(1) insights_step_skipped[OF False, of s]
        by (simp add: total_of_Cons)
    qed }
  { case 3
    then obtain t where t: "insights_step lib s e = Inr t" "insights_loop lib t es = Inr s'"
      by (auto split: sum.splits)
    show ?case
    proof (cases "counted lib e")
      case True
      then show ?thesis using Cons.IH(3)[OF t(2)] insights_step_counted(2)[OF True t(1)]
        by (auto simp: total_of_Cons dict_get_dict_add)
    next
      case False
      then show ?thesis using Cons.IH(3)[OF t(2)] t(1) insights_step_skipped[OF False, of s]
        by (simp add: total_of_Cons)
    qed }
  { case 4
    then obtain t where t: "insights_step lib s e = Inr t" "insights_loop lib t es = Inr s'"
      by (auto split: sum.splits)
    show ?case
    proof (cases "counted lib e")
      case True
      then show ?thesis using Cons.IH(4)[OF t(2)] insights_step_counted(3)[OF True t(1)]
        by (simp add: total_of_Cons)
    next
      case False
      then show ?thesis using Cons.IH(4)[OF t(2)] t(1) insights_step_skipped[OF False, of s]
        by (simp add: total_of_Cons)
    qed }
  { case 5
    then obtain t where t: "insights_step lib s e = Inr t" "insights_loop lib t es = Inr s'"
      by (auto split: sum.splits)
    show ?case
    proof (cases "counted lib e")
      case True
      then show ?thesis using Cons.IH(5)[OF t(2)] insights_step_counted(4)[OF True t(1)]
        by (simp add: total_of_Cons)
    next
      case False
      then show ?thesis using Cons.IH(5)[OF t(2)] t(1) insights_step_skipped[OF False, of s]
        by (simp add: total_of_Cons)
    qed }
  { case 6
    then obtain t where t: "insights_step lib s e = Inr t" "insights_loop lib t es = Inr s'"
      by (auto split: sum.splits)
    show ?case
    proof (cases "counted lib e")
      case True
      then show ?thesis using Cons.IH(6)[OF t(2)] insights_step_counted(5)[OF True t(1)]
        by (auto simp: total_of_Cons dict_get_dict_add split: option.splits)
    next
      case False
      then show ?thesis using Cons.IH(6)[OF t(2)] t(1) insights_step_skipped[OF False, of s]
        by (simp add: total_of_Cons)
    qed }
qed

lemma total_of_nonneg: "0 \<le> total_of lib P es"
  unfolding total_of_def by (rule sum_list_nonneg) (auto simp: counted_def)




lemma py_round2_round_half_even: "py_round2 x = of_int (round_half_even (x * 100)) / 100"
  by (simp add: py_round2_def round_half_even_def Let_def)

lemma round_half_even_mono:
  assumes "x \<le> y"
  shows "round_half_even x \<le> round_half_even y"
proof (cases "\<lfloor>x\<rfloor> = \<lfloor>y\<rfloor>")
  case True
  then show ?thesis using assms by (auto simp: round_half_even_def Let_def)
next
  case False
  then have "\<lfloor>x\<rfloor> + 1 \<le> \<lfloor>y\<rfloor>" using floor_mono[OF assms] by linarith
  moreover have "round_half_even x \<le> \<lfloor>x\<rfloor> + 1" by (auto simp: round_half_even_def Let_def)
  moreover have "\<lfloor>y\<rfloor> \<le> round_half_even y" by (auto simp: round_half_even_def Let_def)
  ultimately show ?thesis by linarith
qed

lemma py_round2_mono: "x \<le> y \<Longrightarrow> py_round2 x \<le> py_round2 y"
  unfolding py_round2_round_half_even
  using round_half_even_mono[of "x * 100" "y * 100"] by (simp add: divide_right_mono)

subsection \<open>Properties of the result\<close>

definition budget_of :: "'dt library \<Rightarrow> budget_row \<Rightarrow> real" where
  \<comment> \<open>the budget amount \<^verbatim>\<open>compute_insights\<close> resolves from the row\<close>
  "budget_of lib row =
     to_float (float_of_str lib)
       (if truthy (budget_amount row) then budget_amount row else fallback_amount row)"

lemma compute_insights_fields:
  assumes "compute_insights lib es row per pk = Inr r"
  obtains s where "insights_loop lib initial_state es = Inr s"
    and "spent_total r = py_round2 (spent s)"
    and "totals_by_category r = map (\<lambda>(k, v). (k, py_round2 v)) (totals_by_cat s)"
    and "discretionary_total r = py_round2 (discretionary s)"
    and "restaurant_food_total r = py_round2 (restaurant_food s)"
    and "warnings r = compute_warnings (budget_of lib row) s"
  using assms
  by (auto simp: compute_insights_def budget_of_def Let_def split: sum.splits)

lemma compute_insights_raises_iff:
  "(\<exists>err. compute_insights lib es row per pk = Inl err)
     \<longleftrightarrow> (\<exists>err. insights_loop lib initial_state es = Inl err)"
  by (auto simp: compute_insights_def Let_def split: sum.splits)

lemma compute_insights_cong:
  assumes "insights_loop lib initial_state es = insights_loop lib initial_state es'"
  shows "compute_insights lib es row per pk = compute_insights lib es' row per pk"
  using assms by (simp add: compute_insights_def)

lemma insights_loop_returns:
  assumes "\<forall>e\<in>set es. counted lib e \<longrightarrow> parse_ts lib (created_at e) = None \<or> day_of lib e \<noteq> None"
  shows "\<exists>s'. insights_loop lib s es = Inr s'"
  using assms
proof (induction es arbitrary: s)
  case Nil
  then show ?case by simp
next
  case (Cons e es)
  have "\<exists>t. insights_step lib s e = Inr t"
  proof (cases "counted lib e")
    case True
    then show ?thesis using Cons.prems by (intro insights_step_returns) simp
  next
    case False
    then show ?thesis by (simp add: insights_step_skipped)
  qed
  then obtain t where "insights_step lib s e = Inr t" by blast
  then show ?case using Cons.IH[of t] Cons.prems by simp
qed

lemma insights_loop_insert_skipped:
  assumes "\<not> counted lib e"
  shows "insights_loop lib s (xs @ e # ys) = insights_loop lib s (xs @ ys)"
  by (simp add: insights_loop_append insights_step_skipped[OF assms] split: sum.splits)

lemma initial_state_fields:
  "spent initial_state = 0" "totals_by_cat initial_state = []" "daily_totals initial_state = []"
  "discretionary initial_state = 0" "restaurant_food initial_state = 0"
  by (simp_all add: initial_state_def)



text \<open>
  A concrete run: timestamps are strings, \<open>fromisoformat\<close> accepts the strings of at
  least ten characters and the day key is their first ten characters.
\<close>

definition demo_lib :: "string library" where
  "demo_lib = \<lparr>float_of_str = (\<lambda>t. None),
               fromisoformat = (\<lambda>t. if 10 \<le> length t then Some t else None),
               day_key = (\<lambda>d. Inr (take 10 d))\<rparr>"

definition demo_row :: budget_row where
  "demo_row = \<lparr>budget_amount = PNum 50000, fallback_amount = PNone, home_city = None\<rparr>"

definition demo_entry :: "real \<Rightarrow> string \<Rightarrow> string \<Rightarrow> string entry" where
  "demo_entry a c ts = \<lparr>amount = PNum a, title = None, beneficiary_name = None, raw_text = None,
                          category = Some c, category_normalized = None, created_at = CStr ts\<rparr>"

definition demo_entries :: "string entry list" where
  "demo_entries =
     [demo_entry 22500 ''Rent'' ''2024-01-03T10:00:00Z'',
      demo_entry 25505 ''Shopping'' ''2024-01-05T09:30:00Z'',
      demo_entry 500 ''fund transfer'' ''2024-01-06T09:30:00Z'',
      demo_entry 2000 ''Food'' ''2024-01-07T20:15:00Z'']"

definition demo_state :: insight_state where
  "demo_state = \<lparr>spent = 50005,
                  totals_by_cat = [(''rent'', 22500), (''shopping'', 25505), (''food'', 2000)],
                  daily_totals = [(''2024-01-03'', 22500), (''2024-01-05'', 25505),
                                  (''2024-01-07'', 2000)],
                  discretionary = 27505, restaurant_food = 2000\<rparr>"

definition demo_result :: insights where
  "demo_result =
     \<lparr>period = ''month'', period_key = None, city = None, budget = 50000, spent_total = 50005,
      remaining = - 5,
      totals_by_category = [(''rent'', 22500), (''shopping'', 25505), (''food'', 2000)],
      top_categories = [(''shopping'', 25505), (''rent'', 22500), (''food'', 2000)],
      discretionary_total = 27505, restaurant_food_total = 2000,
      warnings = [''OVER_BUDGET'', ''RENT_HIGH'', ''DISCRETIONARY_HIGH''],
      actions =
        [''You are over budget by Rs. 5. Cut discretionary categories first.'',
         ''Rent is taking a very large share of your budget. Consider negotiating rent, sharing accommodation, or relocating.'',
         ''Discretionary spending is high. Set a weekly cap and review non-essential transactions.'']\<rparr>"


lemma demo_compute: "compute_insights demo_lib demo_entries demo_row ''month'' None = Inr demo_result"
  by code_simp


text \<open>
  Over exact reals the restaurant-food total is at most the discretionary total:
  every amount added to the first accumulator is added to the second, amounts are
  positive, and rounding to two decimals keeps the order. The statement for
  floating-point amounts is in the last section.
\<close>

lemma restaurant_food_le_discretionary_exact:
  assumes "compute_insights lib es row per pk = Inr r"
  shows "restaurant_food_total r \<le> discretionary_total r"
proof -
  from assms obtain s where s: "insights_loop lib initial_state es = Inr s"
    and d: "discretionary_total r = py_round2 (discretionary s)"
    and f: "restaurant_food_total r = py_round2 (restaurant_food s)"
    by (rule compute_insights_fields)
  note sums = insights_loop_sums[OF s, unfolded initial_state_fields]
  have "restaurant_food s \<le> discretionary s"
    using sums(4,5) total_of_nonneg[of lib is_discretionary es] by simp
  then show ?thesis unfolding d f by (rule py_round2_mono)
qed

lemma restaurant_food_le_discretionary_exact_example:
  "restaurant_food_total demo_result = 2000 \<and> discretionary_total demo_result = 27505
   \<and> restaurant_food_total demo_result \<le> discretionary_total demo_result"
  using restaurant_food_le_discretionary_exact[OF demo_compute] by (simp add: demo_result_def)

lemma step_whole:
  assumes "insights_step lib s e = Inr t"
    and "counted lib e \<longrightarrow> whole_hundredths (amt_of lib e)"
    and "\<forall>x\<in>set (map snd (totals_by_cat s)). whole_hundredths x"
  shows "\<forall>x\<in>set (map snd (totals_by_cat t)). whole_hundredths x"
proof (cases "counted lib e")
  case True
  then have w: "whole_hundredths (amt_of lib e)" using assms(2) by simp
  have "\<forall>x\<in>set (map snd (dict_add (normalize_category e) (amt_of lib e) (totals_by_cat s))).
          whole_hundredths x"
  proof (rule dict_add_values)
    show "whole_hundredths (0 + amt_of lib e)" using w by simp
    show "\<forall>x\<in>set (map snd (totals_by_cat s)). whole_hundredths x" by (rule assms(3))
    show "whole_hundredths (x + amt_of lib e)" if "whole_hundredths x" for x
      using that w by (rule whole_hundredths_add)
  qed
  then show ?thesis unfolding insights_step_counted(2)[OF True assms(1)] .
next
  case False
  have "t = s" using assms(1) insights_step_skipped[OF False, of s] by simp
  then show ?thesis using assms(3) by simp
qed

lemma insights_loop_whole:
  assumes "insights_loop lib s es = Inr s'"
    and "\<forall>e\<in>set es. counted lib e \<longrightarrow> whole_hundredths (amt_of lib e)"
    and "\<forall>x\<in>set (map snd (totals_by_cat s)). whole_hundredths x"
  shows "\<forall>x\<in>set (map snd (totals_by_cat s')). whole_hundredths x"
  using assms
proof (induction es arbitrary: s)
  case Nil
  from Nil(1) have "s' = s" by simp
  then show ?case using Nil(3) by simp
next
  case (Cons e es)
  from Cons.prems(1) obtain t where t: "insights_step lib s e = Inr t" "insights_loop lib t es = Inr s'"
    by (auto split: sum.splits)
  have e: "counted lib e \<longrightarrow> whole_hundredths (amt_of lib e)"
    and es: "\<forall>e\<in>set es. counted lib e \<longrightarrow> whole_hundredths (amt_of lib e)"
    using Cons.prems(2) by simp_all
  have "\<forall>x\<in>set (map snd (totals_by_cat t)). whole_hundredths x"
    using t(1) e Cons.prems(3) by (rule step_whole)
  with t(2) es show ?case by (rule Cons.IH)
qed

lemma total_of_whole:
  assumes "\<forall>e\<in>set es. counted lib e \<longrightarrow> whole_hundredths (amt_of lib e)"
  shows "whole_hundredths (total_of lib P es)"
  unfolding total_of_def using assms by (intro whole_hundredths_sum_list) auto

lemma sum_rounded_whole:
  assumes "\<forall>x\<in>set (map snd d). whole_hundredths x"
  shows "sum_list (map snd (map (\<lambda>(k, v). (k, py_round2 v)) d)) = sum_list (map snd d)"
  using assms by (induction d) (auto simp: py_round2_whole)

text \<open>
  The summed amounts of the entries that the exclusion set removes: positive amount,
  normalized category in the set.
\<close>

definition excluded_total :: "'dt library \<Rightarrow> 'dt entry list \<Rightarrow> real" where
  "excluded_total lib es = sum_list (map (amt_of lib) (filter (excluded lib) es))"

text \<open>
  Over exact reals the accumulator behind \<open>spent_total\<close> is the sum of the amounts of
  the counted entries, and the per-category accumulators sum to the same number. The
  two output fields are these accumulators rounded to two decimals, so when the counted
  amounts are whole hundredths the values of \<open>totals_by_category\<close> sum to \<open>spent_total\<close>.
  In binary floating point the two sums differ by rounding; what holds there is in the
  last section.
\<close>

lemma totals_by_category_sum_exact:
  assumes "compute_insights lib es row per pk = Inr r"
  shows "\<exists>s. insights_loop lib initial_state es = Inr s
           \<and> spent_total r = py_round2 (spent s)
           \<and> totals_by_category r = map (\<lambda>(k, v). (k, py_round2 v)) (totals_by_cat s)
           \<and> spent s = total_of lib (\<lambda>e. True) es
           \<and> sum_list (map snd (totals_by_cat s)) = spent s
           \<and> ((\<forall>e\<in>set es. counted lib e \<longrightarrow> whole_hundredths (amt_of lib e))
                \<longrightarrow> sum_list (map snd (totals_by_category r)) = spent_total r)"
proof -
  from assms obtain s where s: "insights_loop lib initial_state es = Inr s"
    and sp: "spent_total r = py_round2 (spent s)"
    and tc: "totals_by_category r = map (\<lambda>(k, v). (k, py_round2 v)) (totals_by_cat s)"
    by (rule compute_insights_fields)
  note sums = insights_loop_sums[OF s, unfolded initial_state_fields]
  have a: "spent s = total_of lib (\<lambda>e. True) es" using sums(1) by simp
  have b: "sum_list (map snd (totals_by_cat s)) = spent s" using sums(1,2) by simp
  have c: "sum_list (map snd (totals_by_category r)) = spent_total r"
    if w: "\<forall>e\<in>set es. counted lib e \<longrightarrow> whole_hundredths (amt_of lib e)"
  proof -
    have "\<forall>x\<in>set (map snd (totals_by_cat s)). whole_hundredths x"
      using s w by (rule insights_loop_whole) (simp add: initial_state_fields)
    then have "sum_list (map snd (totals_by_category r)) = sum_list (map snd (totals_by_cat s))"
      unfolding tc by (rule sum_rounded_whole)
    moreover have "py_round2 (spent s) = spent s"
      unfolding a using w by (intro py_round2_whole total_of_whole)
    ultimately show ?thesis using b sp by simp
  qed
  show ?thesis using s sp tc a b c by (intro exI[of _ s]) simp
qed

lemma totals_by_category_sum_exact_example:
  "compute_insights demo_lib demo_entries demo_row ''month'' None = Inr demo_result
   \<and> sum_list (map snd (totals_by_category demo_result)) = spent_total demo_result
   \<and> spent_total demo_result = 50005 \<and> excluded_total demo_lib demo_entries = 500"
proof -
  have w: "\<forall>e\<in>set demo_entries. counted demo_lib e \<longrightarrow> whole_hundredths (amt_of demo_lib e)"
    by code_simp
  have x: "excluded_total demo_lib demo_entries = 500" by code_simp
  from totals_by_category_sum_exact[OF demo_compute] w
  have "sum_list (map snd (totals_by_category demo_result)) = spent_total demo_result" by blast
  then show ?thesis using demo_compute x by (simp add: demo_result_def)
qed


lemma compute_insights_returns:
  assumes "\<forall>e\<in>set es. counted lib e \<longrightarrow> parse_ts lib (created_at e) = None \<or> day_of lib e \<noteq> None"
  shows "\<exists>r. compute_insights lib es row per pk = Inr r"
proof -
  obtain s where "insights_loop lib initial_state es = Inr s"
    using insights_loop_returns[OF assms] by blast
  then show ?thesis by (simp add: compute_insights_def Let_def)
qed

lemma malformed_amount_zero:
  assumes "amount e = PNone \<or> (\<exists>t. amount e = PStr t \<and> float_of_str lib t = None)"
  shows "amt_of lib e = 0"
  using assms by (auto simp: amt_of_def to_float_def py_float_def)

lemma unparsed_day_of: "parse_ts lib (created_at e) = None \<Longrightarrow> day_of lib e = None"
  by (simp add: day_of_def)

text \<open>
  C9. An entry whose amount is missing or is a string that \<^verbatim>\<open>float\<close> rejects has amount
  0, leaves the loop state as it is, and can be dropped from the list without changing
  what \<open>compute_insights\<close> returns. An entry whose timestamp does not parse never
  makes the loop body fail: it leaves the day buckets untouched and, when it is counted,
  adds its amount to the spent total, to its category and to the discretionary and
  restaurant-food sums it belongs to. The computation returns whenever every counted
  entry's timestamp either does not parse or has a day key.
\<close>

theorem malformed_entries_degrade:
  "((amount e = PNone \<or> (\<exists>t. amount e = PStr t \<and> float_of_str lib t = None)) \<longrightarrow>
       amt_of lib e = 0 \<and> insights_step lib s e = Inr s
       \<and> compute_insights lib (xs @ e # ys) row per pk = compute_insights lib (xs @ ys) row per pk)
   \<and> (parse_ts lib (created_at e) = None \<longrightarrow>
       (\<exists>s'. insights_step lib s e = Inr s' \<and> daily_totals s' = daily_totals s
          \<and> (\<not> counted lib e \<longrightarrow> s' = s)
          \<and> (counted lib e \<longrightarrow>
                spent s' = spent s + amt_of lib e
              \<and> totals_by_cat s' = dict_add (normalize_category e) (amt_of lib e) (totals_by_cat s)
              \<and> discretionary s' = discretionary s + (if is_discretionary e then amt_of lib e else 0)
                                       + (if is_restaurant lib e then amt_of lib e else 0)
              \<and> restaurant_food s' = restaurant_food s
                                       + (if is_restaurant lib e then amt_of lib e else 0))))
   \<and> ((\<forall>x\<in>set es. counted lib x \<longrightarrow> parse_ts lib (created_at x) = None \<or> day_of lib x \<noteq> None)
        \<longrightarrow> (\<exists>r. compute_insights lib es row per pk = Inr r))"
proof (intro conjI impI)
  assume a: "amount e = PNone \<or> (\<exists>t. amount e = PStr t \<and> float_of_str lib t = None)"
  show z: "amt_of lib e = 0" using a by (rule malformed_amount_zero)
  then have nc: "\<not> counted lib e" by (simp add: counted_def)
  show "insights_step lib s e = Inr s" using nc by (rule insights_step_skipped)
  show "compute_insights lib (xs @ e # ys) row per pk = compute_insights lib (xs @ ys) row per pk"
    using nc by (intro compute_insights_cong insights_loop_insert_skipped)
next
  assume p: "parse_ts lib (created_at e) = None"
  obtain s' where s': "insights_step lib s e = Inr s'"
    using insights_step_returns[of lib e s] p by blast
  have d: "daily_totals s' = daily_totals s"
  proof (cases "counted lib e")
    case True
    then show ?thesis using insights_step_counted(5)[OF True s'] unparsed_day_of[OF p] by simp
  next
    case False
    then show ?thesis using s' insights_step_skipped[OF False, of s] by simp
  qed
  have n: "\<not> counted lib e \<longrightarrow> s' = s"
    using s' insights_step_skipped[of lib e s] by auto
  have c: "counted lib e \<longrightarrow>
                spent s' = spent s + amt_of lib e
              \<and> totals_by_cat s' = dict_add (normalize_category e) (amt_of lib e) (totals_by_cat s)
              \<and> discretionary s' = discretionary s + (if is_discretionary e then amt_of lib e else 0)
                                       + (if is_restaurant lib e then amt_of lib e else 0)
              \<and> restaurant_food s' = restaurant_food s
                                       + (if is_restaurant lib e then amt_of lib e else 0)"
    using insights_step_counted(1-4)[OF _ s'] by blast
  from s' d n c
  show "\<exists>s'. insights_step lib s e = Inr s' \<and> daily_totals s' = daily_totals s
          \<and> (\<not> counted lib e \<longrightarrow> s' = s)
          \<and> (counted lib e \<longrightarrow>
                spent s' = spent s + amt_of lib e
              \<and> totals_by_cat s' = dict_add (normalize_category e) (amt_of lib e) (totals_by_cat s)
              \<and> discretionary s' = discretionary s + (if is_discretionary e then amt_of lib e else 0)
                                       + (if is_restaurant lib e then amt_of lib e else 0)
              \<and> restaurant_food s' = restaurant_food s
                                       + (if is_restaurant lib e then amt_of lib e else 0))"
    by blast
next
  assume "\<forall>x\<in>set es. counted lib x \<longrightarrow> parse_ts lib (created_at x) = None \<or> day_of lib x \<noteq> None"
  then show "\<exists>r. compute_insights lib es row per pk = Inr r"
    by (rule compute_insights_returns)
qed

text \<open>Two malformed entries: an amount that is not a number, a timestamp that does not parse.\<close>

definition bad_amount_entry :: "string entry" where
  "bad_amount_entry = (demo_entry 0 ''Shopping'' ''2024-01-09T08:00:00Z'')\<lparr>amount := PStr ''abc''\<rparr>"

definition bad_stamp_entry :: "string entry" where
  "bad_stamp_entry = demo_entry 2000 ''Food'' ''yesterday''"

theorem malformed_entries_degrade_witness:
  "compute_insights demo_lib (demo_entries @ [bad_amount_entry]) demo_row ''month'' None = Inr demo_result
   \<and> insights_step demo_lib demo_state bad_stamp_entry
       = Inr (demo_state\<lparr>spent := 52005,
                         totals_by_cat := [(''rent'', 22500), (''shopping'', 25505), (''food'', 4000)],
                         discretionary := 29505, restaurant_food := 4000\<rparr>)
   \<and> (\<exists>r. compute_insights demo_lib (demo_entries @ [bad_stamp_entry]) demo_row ''month'' None = Inr r)"
proof -
  have a: "amount bad_amount_entry = PNone
           \<or> (\<exists>t. amount bad_amount_entry = PStr t \<and> float_of_str demo_lib t = None)"
    by (simp add: bad_amount_entry_def demo_lib_def)
  have p: "parse_ts demo_lib (created_at bad_stamp_entry) = None" by code_simp
  have c: "counted demo_lib bad_stamp_entry" by code_simp
  have f: "amt_of demo_lib bad_stamp_entry = 2000" "normalize_category bad_stamp_entry = ''food''"
    "is_restaurant demo_lib bad_stamp_entry" "\<not> is_discretionary bad_stamp_entry"
    by code_simp+
  have ok: "\<forall>x\<in>set (demo_entries @ [bad_stamp_entry]).
              counted demo_lib x \<longrightarrow> parse_ts demo_lib (created_at x) = None \<or> day_of demo_lib x \<noteq> None"
    by code_simp
  note m = malformed_entries_degrade[of bad_amount_entry demo_lib demo_state demo_entries "[]"
      demo_row "''month''" None "demo_entries @ [bad_stamp_entry]"]
  note n = malformed_entries_degrade[of bad_stamp_entry demo_lib demo_state demo_entries "[]"
      demo_row "''month''" None "demo_entries @ [bad_stamp_entry]"]
  have 1: "compute_insights demo_lib (demo_entries @ [bad_amount_entry]) demo_row ''month'' None
           = Inr demo_result"
    using m a demo_compute by simp
  from n p c obtain s' where s': "insights_step demo_lib demo_state bad_stamp_entry = Inr s'"
    "daily_totals s' = daily_totals demo_state"
    "spent s' = spent demo_state + amt_of demo_lib bad_stamp_entry"
    "totals_by_cat s' = dict_add (normalize_category bad_stamp_entry) (amt_of demo_lib bad_stamp_entry)
                          (totals_by_cat demo_state)"
    "discretionary s' = discretionary demo_state
        + (if is_discretionary bad_stamp_entry then amt_of demo_lib bad_stamp_entry else 0)
        + (if is_restaurant demo_lib bad_stamp_entry then amt_of demo_lib bad_stamp_entry else 0)"
    "restaurant_food s' = restaurant_food demo_state
        + (if is_restaurant demo_lib bad_stamp_entry then amt_of demo_lib bad_stamp_entry else 0)"
    by blast
  have "s' = demo_state\<lparr>spent := 52005,
                         totals_by_cat := [(''rent'', 22500), (''shopping'', 25505), (''food'', 4000)],
                         discretionary := 29505, restaurant_food := 4000\<rparr>"
    using s'(2-6) by (cases s') (simp add: demo_state_def f)
  then have 2: "insights_step demo_lib demo_state bad_stamp_entry
       = Inr (demo_state\<lparr>spent := 52005,
                         totals_by_cat := [(''rent'', 22500), (''shopping'', 25505), (''food'', 4000)],
                         discretionary := 29505, restaurant_food := 4000\<rparr>)"
    using s'(1) by simp
  have 3: "\<exists>r. compute_insights demo_lib (demo_entries @ [bad_stamp_entry]) demo_row ''month'' None = Inr r"
    using n ok by blast
  from 1 2 3 show ?thesis by blast
qed

section \<open>The totals over floating-point values\<close>

text \<open>
  The definitions above compute with exact reals. What follows repeats the loop of
  \<^verbatim>\<open>compute_insights\<close> and the four totals of its result over an arbitrary type \<open>'f\<close> of
  floating-point values, with the operations the code applies to them as parameters:
  the constants \<^verbatim>\<open>0.0\<close> and \<^verbatim>\<open>1800\<close>, addition, the comparison \<^verbatim>\<open>x <= y\<close> (false as soon
  as an operand is NaN), \<^verbatim>\<open>round(x, 2)\<close>, and \<^verbatim>\<open>float\<close> on a number and on a string
  (\<open>None\<close> where it raises). Nothing is assumed of the operations unless a statement
  says so, so what is proved holds for IEEE doubles with their rounding, infinities and
  NaN as well as for exact reals.
\<close>

record 'f arith =
  fzero :: 'f
  fthreshold :: 'f
  fadd :: "'f \<Rightarrow> 'f \<Rightarrow> 'f"
  fle :: "'f \<Rightarrow> 'f \<Rightarrow> bool"
  fround2 :: "'f \<Rightarrow> 'f"
  fnum :: "real \<Rightarrow> 'f option"
  fstr :: "string \<Rightarrow> 'f option"

definition to_float_fp :: "'f arith \<Rightarrow> pyval \<Rightarrow> 'f" where
  \<comment> \<open>\<^verbatim>\<open>_to_float\<close>: \<^verbatim>\<open>float(x)\<close>, and \<^verbatim>\<open>0.0\<close> when it raises\<close>
  "to_float_fp ops v =
     (case v of
        PNone \<Rightarrow> fzero ops
      | PNum x \<Rightarrow> (case fnum ops x of None \<Rightarrow> fzero ops | Some f \<Rightarrow> f)
      | PStr s \<Rightarrow> (case fstr ops s of None \<Rightarrow> fzero ops | Some f \<Rightarrow> f))"

definition classify_food_unnecessary_fp :: "'f arith \<Rightarrow> 'dt entry \<Rightarrow> bool \<times> string" where
  "classify_food_unnecessary_fp ops e =
     (let blob = text_blob e; amt = to_float_fp ops (amount e) in
      if list_ex (\<lambda>k. contains k blob) HOME_FOOD_KEYWORDS then (False, ''home_food_keyword'')
      else if list_ex (\<lambda>k. contains k blob) RESTAURANT_KEYWORDS then (True, ''restaurant_keyword'')
      else if fle ops (fthreshold ops) amt then (True, ''expensive_food_amount'')
      else (False, ''unknown_food_type''))"

fun dict_add_fp :: "'f arith \<Rightarrow> string \<Rightarrow> 'f \<Rightarrow> (string \<times> 'f) list \<Rightarrow> (string \<times> 'f) list" where
  \<comment> \<open>\<^verbatim>\<open>d[k] += v\<close> on a \<^verbatim>\<open>defaultdict(float)\<close>\<close>
  "dict_add_fp ops k v [] = [(k, fadd ops (fzero ops) v)]"
| "dict_add_fp ops k v ((k', x) # rest) =
     (if k = k' then (k', fadd ops x v) # rest else (k', x) # dict_add_fp ops k v rest)"


record 'f fp_state =
  fp_spent :: 'f
  fp_totals_by_cat :: "(string \<times> 'f) list"
  fp_daily_totals :: "(string \<times> 'f) list"
  fp_discretionary :: 'f
  fp_restaurant_food :: 'f

definition initial_state_fp :: "'f arith \<Rightarrow> 'f fp_state" where
  "initial_state_fp ops =
     \<lparr>fp_spent = fzero ops, fp_totals_by_cat = [], fp_daily_totals = [],
      fp_discretionary = fzero ops, fp_restaurant_food = fzero ops\<rparr>"

definition insights_step_fp ::
  "'f arith \<Rightarrow> 'dt library \<Rightarrow> 'f fp_state \<Rightarrow> 'dt entry \<Rightarrow> error + 'f fp_state" where
  \<comment> \<open>the body of the loop over the entries\<close>
  "insights_step_fp ops lib s e =
     (let amt = to_float_fp ops (amount e) in
      if fle ops amt (fzero ops) then Inr s
      else
        let catn = normalize_category e in
        if catn \<in> set EXCLUDE_CATS then Inr s
        else
          let s1 = s\<lparr>fp_spent := fadd ops (fp_spent s) amt,
                     fp_totals_by_cat := dict_add_fp ops catn amt (fp_totals_by_cat s)\<rparr> in
          (case (case parse_ts lib (created_at e) of
                   None \<Rightarrow> Inr s1
                 | Some dt \<Rightarrow>
                     (case day_key lib dt of
                        Inl err \<Rightarrow> Inl err
                      | Inr k \<Rightarrow>
                          Inr (s1\<lparr>fp_daily_totals := dict_add_fp ops k amt (fp_daily_totals s1)\<rparr>))) of
             Inl err \<Rightarrow> Inl err
           | Inr s2 \<Rightarrow>
               let s3 = (if catn \<in> set DISCRETIONARY_BASE
                         then s2\<lparr>fp_discretionary := fadd ops (fp_discretionary s2) amt\<rparr> else s2)
               in Inr (if catn = ''food''
                       then (if fst (classify_food_unnecessary_fp ops e)
                             then s3\<lparr>fp_restaurant_food := fadd ops (fp_restaurant_food s3) amt,
                                    fp_discretionary := fadd ops (fp_discretionary s3) amt\<rparr>
                             else s3)
                       else s3)))"

fun insights_loop_fp ::
  "'f arith \<Rightarrow> 'dt library \<Rightarrow> 'f fp_state \<Rightarrow> 'dt entry list \<Rightarrow> error + 'f fp_state" where
  "insights_loop_fp ops lib s [] = Inr s"
| "insights_loop_fp ops lib s (e # es) =
     (case insights_step_fp ops lib s e of
        Inl err \<Rightarrow> Inl err
      | Inr s' \<Rightarrow> insights_loop_fp ops lib s' es)"

record 'f fp_totals =
  fp_spent_total :: 'f
  fp_totals_by_category :: "(string \<times> 'f) list"
  fp_discretionary_total :: 'f
  fp_restaurant_food_total :: 'f

definition compute_totals_fp ::
  "'f arith \<Rightarrow> 'dt library \<Rightarrow> 'dt entry list \<Rightarrow> error + 'f fp_totals" where
  \<comment> \<open>the fields \<^verbatim>\<open>spent_total\<close>, \<^verbatim>\<open>totals_by_category\<close>, \<^verbatim>\<open>discretionary_total\<close> and
      \<^verbatim>\<open>restaurant_food_total\<close> of the result of \<^verbatim>\<open>compute_insights\<close>\<close>
  "compute_totals_fp ops lib entries =
     (case insights_loop_fp ops lib (initial_state_fp ops) entries of
        Inl err \<Rightarrow> Inl err
      | Inr s \<Rightarrow>
          Inr \<lparr>fp_spent_total = fround2 ops (fp_spent s),
               fp_totals_by_category = map (\<lambda>(k, v). (k, fround2 ops v)) (fp_totals_by_cat s),
               fp_discretionary_total = fround2 ops (fp_discretionary s),
               fp_restaurant_food_total = fround2 ops (fp_restaurant_food s)\<rparr>)"

text \<open>
  Two instances. The first is the exact arithmetic of the earlier sections. The second
  adds a NaN to the reals, with the behaviour IEEE arithmetic and Python give it:
  every sum with a NaN is NaN, every comparison with a NaN is false, \<^verbatim>\<open>round\<close> keeps it,
  and \<^verbatim>\<open>float\<close> returns it on the strings \<^verbatim>\<open>nan\<close>, \<^verbatim>\<open>+nan\<close> and \<^verbatim>\<open>-nan\<close> in any case and
  with blanks around. The infinities are not in this instance.
\<close>

definition exact_ops :: "(string \<Rightarrow> real option) \<Rightarrow> real arith" where
  "exact_ops fl = \<lparr>fzero = 0, fthreshold = FOOD_EXPENSIVE_RS, fadd = (+), fle = (\<le>),
                   fround2 = py_round2, fnum = Some, fstr = fl\<rparr>"

datatype fnum = Num real | NaN

definition nan_ops :: "(string \<Rightarrow> real option) \<Rightarrow> fnum arith" where
  \<comment> \<open>\<open>fl\<close> is \<^verbatim>\<open>float\<close> on the strings that denote a finite number\<close>
  "nan_ops fl =
     \<lparr>fzero = Num 0,
      fthreshold = Num 1800,
      fadd = (\<lambda>a b. case (a, b) of (Num x, Num y) \<Rightarrow> Num (x + y) | _ \<Rightarrow> NaN),
      fle = (\<lambda>a b. case (a, b) of (Num x, Num y) \<Rightarrow> x \<le> y | _ \<Rightarrow> False),
      fround2 = (\<lambda>a. case a of Num x \<Rightarrow> Num (py_round2 x) | NaN \<Rightarrow> NaN),
      fnum = (\<lambda>x. Some (Num x)),
      fstr = (\<lambda>s. if py_lower (py_strip s) \<in> set [''nan'', ''+nan'', ''-nan''] then Some NaN
                  else map_option Num (fl s))\<rparr>"

definition demo_ops :: "fnum arith" where
  "demo_ops = nan_ops (float_of_str demo_lib)"

definition amt_fp :: "'f arith \<Rightarrow> 'dt entry \<Rightarrow> 'f" where
  "amt_fp ops e = to_float_fp ops (amount e)"

definition counted_fp :: "'f arith \<Rightarrow> 'dt entry \<Rightarrow> bool" where
  \<comment> \<open>the entries that pass both \<^verbatim>\<open>continue\<close> guards of the loop\<close>
  "counted_fp ops e = (\<not> fle ops (amt_fp ops e) (fzero ops) \<and> normalize_category e \<notin> set EXCLUDE_CATS)"

definition is_restaurant_fp :: "'f arith \<Rightarrow> 'dt entry \<Rightarrow> bool" where
  "is_restaurant_fp ops e =
     (normalize_category e = ''food'' \<and> fst (classify_food_unnecessary_fp ops e))"


definition nan_entry :: "string entry" where
  "nan_entry = \<lparr>amount = PStr ''nan'', title = Some ''KFC'', beneficiary_name = None,
                 raw_text = None, category = Some ''Food'', category_normalized = None,
                 created_at = CNone\<rparr>"

definition demo_totals :: "fnum fp_totals" where
  "demo_totals =
     \<lparr>fp_spent_total = Num 50005,
      fp_totals_by_category = [(''rent'', Num 22500), (''shopping'', Num 25505), (''food'', Num 2000)],
      fp_discretionary_total = Num 27505, fp_restaurant_food_total = Num 2000\<rparr>"

definition nan_totals :: "fnum fp_totals" where
  "nan_totals = \<lparr>fp_spent_total = NaN, fp_totals_by_category = [(''food'', NaN)],
                  fp_discretionary_total = NaN, fp_restaurant_food_total = NaN\<rparr>"

definition totals_of :: "insights \<Rightarrow> real fp_totals" where
  "totals_of r = \<lparr>fp_spent_total = spent_total r, fp_totals_by_category = totals_by_category r,
                  fp_discretionary_total = discretionary_total r,
                  fp_restaurant_food_total = restaurant_food_total r\<rparr>"

definition state_of :: "insight_state \<Rightarrow> real fp_state" where
  "state_of s = \<lparr>fp_spent = spent s, fp_totals_by_cat = totals_by_cat s,
                 fp_daily_totals = daily_totals s, fp_discretionary = discretionary s,
                 fp_restaurant_food = restaurant_food s\<rparr>"

text \<open>
  The laws of floating-point arithmetic that the order between the two totals rests
  on. IEEE addition with any rounding mode and \<^verbatim>\<open>round(x, 2)\<close> satisfy them: \<open>fle a a\<close>
  says that \<open>a\<close> is not a NaN, and the sums may be infinite.
\<close>

definition monotone_arith :: "'f arith \<Rightarrow> bool" where
  "monotone_arith ops =
     (fle ops (fzero ops) (fzero ops)
      \<and> (\<forall>x y a. fle ops (fzero ops) x \<and> fle ops x y \<and> fle ops a a \<and> \<not> fle ops a (fzero ops)
            \<longrightarrow> fle ops x (fadd ops y a)
                \<and> fle ops (fadd ops x a) (fadd ops y a)
                \<and> fle ops (fzero ops) (fadd ops x a))
      \<and> (\<forall>x y. fle ops x y \<longrightarrow> fle ops (fround2 ops x) (fround2 ops y)))"

subsection \<open>The exact arithmetic is an instance\<close>

text \<open>
  With the exact operations the loop and the totals are those of the previous section.
\<close>

lemma to_float_fp_exact: "to_float_fp (exact_ops fl) v = to_float fl v"
  by (simp add: to_float_fp_def to_float_def py_float_def exact_ops_def split: pyval.splits option.splits)

lemma dict_add_fp_exact: "dict_add_fp (exact_ops fl) k v d = dict_add k v d"
  by (induction d) (auto simp: exact_ops_def)

lemma classify_food_unnecessary_fp_exact:
  "classify_food_unnecessary_fp (exact_ops fl) e = classify_food_unnecessary fl e"
  unfolding classify_food_unnecessary_fp_def classify_food_unnecessary_def to_float_fp_exact
  by (simp add: exact_ops_def Let_def)

lemma insights_step_fp_exact:
  "insights_step_fp (exact_ops (float_of_str lib)) lib (state_of s) e
     = map_sum id state_of (insights_step lib s e)"
  unfolding insights_step_fp_def insights_step_def to_float_fp_exact dict_add_fp_exact
    classify_food_unnecessary_fp_exact
  by (auto simp add: exact_ops_def state_of_def Let_def split: option.splits sum.splits)

lemma insights_loop_fp_exact:
  "insights_loop_fp (exact_ops (float_of_str lib)) lib (state_of s) es
     = map_sum id state_of (insights_loop lib s es)"
proof (induction es arbitrary: s)
  case Nil
  show ?case by simp
next
  case (Cons e es)
  show ?case
    by (cases "insights_step lib s e") (simp_all add: insights_step_fp_exact Cons.IH)
qed

lemma initial_state_fp_exact: "initial_state_fp (exact_ops fl) = state_of initial_state"
  by (simp add: initial_state_fp_def state_of_def initial_state_def exact_ops_def)

lemma compute_totals_fp_exact:
  "compute_totals_fp (exact_ops (float_of_str lib)) lib es
     = map_sum id totals_of (compute_insights lib es row per pk)"
  unfolding compute_totals_fp_def initial_state_fp_exact insights_loop_fp_exact
  by (cases "insights_loop lib initial_state es")
     (simp_all add: compute_insights_def Let_def totals_of_def state_of_def exact_ops_def)

subsection \<open>What the loop adds up\<close>




lemma insights_step_fp_skipped:
  "\<not> counted_fp ops e \<Longrightarrow> insights_step_fp ops lib s e = Inr s"
  by (auto simp add: insights_step_fp_def counted_fp_def amt_fp_def Let_def)

lemma insights_step_fp_counted:
  assumes "counted_fp ops e" and "insights_step_fp ops lib s e = Inr t"
  shows "fp_spent t = fadd ops (fp_spent s) (amt_fp ops e)"
    and "fp_totals_by_cat t = dict_add_fp ops (normalize_category e) (amt_fp ops e) (fp_totals_by_cat s)"
    and "fp_restaurant_food t
           = (if is_restaurant_fp ops e then fadd ops (fp_restaurant_food s) (amt_fp ops e)
              else fp_restaurant_food s)"
    and "fp_discretionary t
           = (let d = (if normalize_category e \<in> set DISCRETIONARY_BASE
                       then fadd ops (fp_discretionary s) (amt_fp ops e) else fp_discretionary s)
              in if is_restaurant_fp ops e then fadd ops d (amt_fp ops e) else d)"
  using assms
  by (auto simp add: insights_step_fp_def counted_fp_def amt_fp_def is_restaurant_fp_def Let_def
           split: option.splits sum.splits if_splits)

lemma insights_loop_fp_cons:
  assumes "insights_loop_fp ops lib s (e # es) = Inr s'"
  obtains t where "insights_step_fp ops lib s e = Inr t" "insights_loop_fp ops lib t es = Inr s'"
  using assms by (cases "insights_step_fp ops lib s e") simp_all





lemma compute_totals_fp_fields:
  assumes "compute_totals_fp ops lib es = Inr r"
  obtains s where "insights_loop_fp ops lib (initial_state_fp ops) es = Inr s"
    and "fp_spent_total r = fround2 ops (fp_spent s)"
    and "fp_totals_by_category r = map (\<lambda>(k, v). (k, fround2 ops v)) (fp_totals_by_cat s)"
    and "fp_discretionary_total r = fround2 ops (fp_discretionary s)"
    and "fp_restaurant_food_total r = fround2 ops (fp_restaurant_food s)"
  using assms unfolding compute_totals_fp_def
  by (cases "insights_loop_fp ops lib (initial_state_fp ops) es") auto

lemma initial_state_fp_fields:
  "fp_spent (initial_state_fp ops) = fzero ops"
  "fp_totals_by_cat (initial_state_fp ops) = []"
  "fp_discretionary (initial_state_fp ops) = fzero ops"
  "fp_restaurant_food (initial_state_fp ops) = fzero ops"
  by (simp_all add: initial_state_fp_def)

lemma exact_ops_monotone: "monotone_arith (exact_ops fl)"
  by (auto simp: monotone_arith_def exact_ops_def py_round2_mono)

lemma nan_ops_monotone: "monotone_arith (nan_ops fl)"
  unfolding monotone_arith_def
  by (auto simp: nan_ops_def py_round2_mono split: fnum.splits)

lemma demo_ops_monotone: "monotone_arith demo_ops"
  unfolding demo_ops_def by (rule nan_ops_monotone)

text \<open>
  The run of the previous section over the arithmetic with a NaN, and an entry whose
  amount is a NaN.
\<close>

lemma demo_totals_fp: "compute_totals_fp demo_ops demo_lib demo_entries = Inr demo_totals"
  by code_simp




subsection \<open>The order between the two totals\<close>

lemma monotone_arithD:
  assumes "monotone_arith ops"
  shows "fle ops (fzero ops) (fzero ops)"
    and "\<And>x y a. fle ops (fzero ops) x \<Longrightarrow> fle ops x y \<Longrightarrow> fle ops a a
            \<Longrightarrow> \<not> fle ops a (fzero ops) \<Longrightarrow> fle ops x (fadd ops y a)"
    and "\<And>x y a. fle ops (fzero ops) x \<Longrightarrow> fle ops x y \<Longrightarrow> fle ops a a
            \<Longrightarrow> \<not> fle ops a (fzero ops) \<Longrightarrow> fle ops (fadd ops x a) (fadd ops y a)"
    and "\<And>x y a. fle ops (fzero ops) x \<Longrightarrow> fle ops x y \<Longrightarrow> fle ops a a
            \<Longrightarrow> \<not> fle ops a (fzero ops) \<Longrightarrow> fle ops (fzero ops) (fadd ops x a)"
    and "\<And>x y. fle ops x y \<Longrightarrow> fle ops (fround2 ops x) (fround2 ops y)"
  using assms unfolding monotone_arith_def by blast+

lemma insights_step_fp_order:
  assumes m: "monotone_arith ops"
    and t: "insights_step_fp ops lib s e = Inr t"
    and n: "fle ops (amt_fp ops e) (amt_fp ops e)"
    and i: "fle ops (fzero ops) (fp_restaurant_food s)"
           "fle ops (fp_restaurant_food s) (fp_discretionary s)"
  shows "fle ops (fzero ops) (fp_restaurant_food t)
         \<and> fle ops (fp_restaurant_food t) (fp_discretionary t)"
proof (cases "counted_fp ops e")
  case False
  have "t = s" using t insights_step_fp_skipped[OF False, of lib s] by simp
  then show ?thesis using i by simp
next
  case True
  then have p: "\<not> fle ops (amt_fp ops e) (fzero ops)" by (simp add: counted_fp_def)
  note f = insights_step_fp_counted(3,4)[OF True t]
  let ?a = "amt_fp ops e"
  let ?d = "if normalize_category e \<in> set DISCRETIONARY_BASE
            then fadd ops (fp_discretionary s) ?a else fp_discretionary s"
  have d: "fle ops (fp_restaurant_food s) ?d"
    using i monotone_arithD(2)[OF m i(1) i(2) n p] by simp
  show ?thesis
  proof (cases "is_restaurant_fp ops e")
    case False
    then show ?thesis using f i d by (simp add: Let_def)
  next
    case True
    have "fle ops (fadd ops (fp_restaurant_food s) ?a) (fadd ops ?d ?a)"
      using i(1) d n p by (rule monotone_arithD(3)[OF m])
    moreover have "fle ops (fzero ops) (fadd ops (fp_restaurant_food s) ?a)"
      using i(1) d n p by (rule monotone_arithD(4)[OF m])
    ultimately show ?thesis using True f by (simp add: Let_def)
  qed
qed

lemma insights_loop_fp_order:
  assumes m: "monotone_arith ops"
    and "insights_loop_fp ops lib s es = Inr s'"
    and "\<forall>e\<in>set es. fle ops (amt_fp ops e) (amt_fp ops e)"
    and "fle ops (fzero ops) (fp_restaurant_food s)"
    and "fle ops (fp_restaurant_food s) (fp_discretionary s)"
  shows "fle ops (fp_restaurant_food s') (fp_discretionary s')"
  using assms(2-)
proof (induction es arbitrary: s)
  case Nil
  then show ?case by simp
next
  case (Cons e es)
  from Cons.prems(1) obtain t where t: "insights_step_fp ops lib s e = Inr t"
    "insights_loop_fp ops lib t es = Inr s'" by (rule insights_loop_fp_cons)
  have n: "fle ops (amt_fp ops e) (amt_fp ops e)"
    and ns: "\<forall>e\<in>set es. fle ops (amt_fp ops e) (amt_fp ops e)"
    using Cons.prems(2) by simp_all
  have "fle ops (fzero ops) (fp_restaurant_food t)
        \<and> fle ops (fp_restaurant_food t) (fp_discretionary t)"
    using m t(1) n Cons.prems(3,4) by (rule insights_step_fp_order)
  then show ?case using Cons.IH[OF t(2) ns] by simp
qed

text \<open>
  C10 (as amended). When no amount is a NaN, the restaurant-food total is at most the
  discretionary total: every amount added to the first accumulator is added to the
  second, the amounts added are positive, and floating-point addition and
  \<^verbatim>\<open>round(_, 2)\<close> are monotone.
\<close>

theorem restaurant_le_discretionary_without_nan:
  assumes "monotone_arith ops"
    and "\<forall>e\<in>set es. fle ops (amt_fp ops e) (amt_fp ops e)"
    and "compute_totals_fp ops lib es = Inr r"
  shows "fle ops (fp_restaurant_food_total r) (fp_discretionary_total r)"
proof -
  from assms(3) obtain s where s: "insights_loop_fp ops lib (initial_state_fp ops) es = Inr s"
    and d: "fp_discretionary_total r = fround2 ops (fp_discretionary s)"
    and f: "fp_restaurant_food_total r = fround2 ops (fp_restaurant_food s)"
    by (rule compute_totals_fp_fields)
  have z: "fle ops (fzero ops) (fzero ops)" by (rule monotone_arithD(1)[OF assms(1)])
  have "fle ops (fp_restaurant_food s) (fp_discretionary s)"
    using assms(1) s assms(2) by (rule insights_loop_fp_order) (simp_all add: initial_state_fp_fields z)
  then show ?thesis unfolding d f by (rule monotone_arithD(5)[OF assms(1)])
qed

theorem restaurant_le_discretionary_without_nan_witness:
  "monotone_arith demo_ops
   \<and> list_all (\<lambda>e. fle demo_ops (amt_fp demo_ops e) (amt_fp demo_ops e)) demo_entries
   \<and> compute_totals_fp demo_ops demo_lib demo_entries = Inr demo_totals
   \<and> fp_restaurant_food_total demo_totals = Num 2000
   \<and> fp_discretionary_total demo_totals = Num 27505
   \<and> fle demo_ops (Num 2000) (Num 27505)"
proof -
  have n: "list_all (\<lambda>e. fle demo_ops (amt_fp demo_ops e) (amt_fp demo_ops e)) demo_entries"
    by code_simp
  then have n': "\<forall>e\<in>set demo_entries. fle demo_ops (amt_fp demo_ops e) (amt_fp demo_ops e)"
    by (simp add: list_all_iff)
  have "fle demo_ops (fp_restaurant_food_total demo_totals) (fp_discretionary_total demo_totals)"
    using demo_ops_monotone n' demo_totals_fp by (rule restaurant_le_discretionary_without_nan)
  then show ?thesis using demo_ops_monotone n demo_totals_fp by (simp add: demo_totals_def)
qed

text \<open>
  C10 as stated fails on an amount that is a NaN: \<^verbatim>\<open>nan <= 0\<close> is false, so the entry is
  counted, both accumulators become NaN, and \<^verbatim>\<open>nan <= nan\<close> is false. Here the amount is
  the string \<^verbatim>\<open>"nan"\<close>, which \<^verbatim>\<open>float\<close> accepts.
\<close>

theorem restaurant_le_discretionary_nan_counterexample:
  "compute_totals_fp demo_ops demo_lib [nan_entry] = Inr nan_totals
   \<and> fp_restaurant_food_total nan_totals = NaN
   \<and> fp_discretionary_total nan_totals = NaN
   \<and> \<not> fle demo_ops (fp_restaurant_food_total nan_totals) (fp_discretionary_total nan_totals)"
proof -
  have "compute_totals_fp demo_ops demo_lib [nan_entry] = Inr nan_totals" by code_simp
  moreover have "\<not> fle demo_ops NaN NaN" by (simp add: demo_ops_def nan_ops_def)
  ultimately show ?thesis by (simp add: nan_totals_def)
qed

end
